theory Spec2Isabelle
  imports Main
begin

section \<open>Live-migration helpers of nova/virt/libvirt/migration.py\<close>

text \<open>
  The module reaches the hypervisor only through a guest object and through the
  \<^verbatim>\<open>libvirt\<close> binding, which is bound at run time. A call into the binding either
  returns or raises \<^verbatim>\<open>libvirtError\<close>, the one exception type the module catches; the
  outcome of such a call is a value here. Times and downtimes are Python integers.
\<close>

subsection \<open>The libvirt binding\<close>

datatype libvirtError = LibvirtError (get_error_code: int) (get_error_message: string)

datatype 'a outcome = Returns 'a | Raises libvirtError

text \<open>The job types of libvirt's \<^verbatim>\<open>virDomainJobType\<close> enumeration.\<close>

datatype job_type =
    VIR_DOMAIN_JOB_NONE
  | VIR_DOMAIN_JOB_BOUNDED
  | VIR_DOMAIN_JOB_UNBOUNDED
  | VIR_DOMAIN_JOB_COMPLETED
  | VIR_DOMAIN_JOB_FAILED
  | VIR_DOMAIN_JOB_CANCELLED

text \<open>The error code libvirt gives to "no such domain" (\<^verbatim>\<open>virErrorNumber\<close>).\<close>

definition VIR_ERR_NO_DOMAIN :: int where
  "VIR_ERR_NO_DOMAIN = 42"

subsection \<open>find_job_type\<close>

text \<open>
  \<^verbatim>\<open>guest.is_active()\<close> is called exactly once, inside the \<^verbatim>\<open>try\<close>; its outcome is
  the argument. The \<^verbatim>\<open>instance\<close> parameter only feeds the log and is left out.
\<close>

definition find_job_type :: "bool outcome \<Rightarrow> job_type" where
  "find_job_type is_active =
     (case is_active of
        Returns active \<Rightarrow>
          if active then VIR_DOMAIN_JOB_FAILED else VIR_DOMAIN_JOB_COMPLETED
      | Raises ex \<Rightarrow>
          if get_error_code ex = VIR_ERR_NO_DOMAIN then VIR_DOMAIN_JOB_COMPLETED
          else VIR_DOMAIN_JOB_FAILED)"

subsection \<open>should_abort\<close>

definition should_abort :: "int \<Rightarrow> int \<Rightarrow> int \<Rightarrow> int \<Rightarrow> int \<Rightarrow> bool" where
  "should_abort now progress_time progress_timeout elapsed completion_timeout =
     (if progress_timeout \<noteq> 0 \<and> (now - progress_time) > progress_timeout then True
      else if completion_timeout \<noteq> 0 \<and> elapsed > completion_timeout then True
      else False)"

subsection \<open>update_downtime\<close>

text \<open>
  What a call of \<^verbatim>\<open>update_downtime\<close> leaves behind: the value it returns (the old
  downtime may be \<^verbatim>\<open>None\<close>), the arguments of the calls it made to
  \<^verbatim>\<open>guest.migrate_configure_max_downtime\<close>, and the warnings it logged for calls that
  raised.
\<close>

record downtime_result =
  returned :: "int option"
  configured :: "int list"
  warnings :: "(int \<times> libvirtError) list"

text \<open>The \<^verbatim>\<open>for step in downtime_steps\<close> loop, with \<^verbatim>\<open>thisstep\<close> as the accumulator.\<close>

fun scan_steps :: "int \<Rightarrow> (int \<times> int) list \<Rightarrow> (int \<times> int) option \<Rightarrow> (int \<times> int) option" where
  "scan_steps elapsed [] thisstep = thisstep"
| "scan_steps elapsed (step # steps) thisstep =
     scan_steps elapsed steps (if elapsed > fst step then Some step else thisstep)"

text \<open>
  The guest is the behaviour of \<^verbatim>\<open>migrate_configure_max_downtime\<close>: \<open>None\<close> when the
  call returns, \<open>Some e\<close> when it raises the libvirt error \<open>e\<close>.
\<close>

definition update_downtime ::
  "(int \<Rightarrow> libvirtError option) \<Rightarrow> int option \<Rightarrow> (int \<times> int) list \<Rightarrow> int \<Rightarrow> downtime_result" where
  "update_downtime guest olddowntime downtime_steps elapsed =
     (case scan_steps elapsed downtime_steps None of
        None \<Rightarrow> \<lparr>returned = olddowntime, configured = [], warnings = []\<rparr>
      | Some thisstep \<Rightarrow>
          if Some (snd thisstep) = olddowntime
          then \<lparr>returned = olddowntime, configured = [], warnings = []\<rparr>
          else (case guest (snd thisstep) of
                  None \<Rightarrow>
                    \<lparr>returned = Some (snd thisstep), configured = [snd thisstep], warnings = []\<rparr>
                | Some e \<Rightarrow>
                    \<lparr>returned = Some (snd thisstep), configured = [snd thisstep],
                     warnings = [(snd thisstep, e)]\<rparr>))"

subsection \<open>Exceptions\<close>

text \<open>
  The Python exceptions that the descriptor patch can raise and that reach its caller.
  \<open>ProviderError\<close> stands for whatever the volume-configuration callback raises, or
  for a failure to parse the XML it returns.
\<close>

datatype error = TypeError | KeyError | ValueError | UnboundLocalError | ProviderError string

definition and_then :: "error + 'a \<Rightarrow> ('a \<Rightarrow> error + 'b) \<Rightarrow> error + 'b" where
  "and_then m f = (case m of Inl e \<Rightarrow> Inl e | Inr x \<Rightarrow> f x)"

subsection \<open>lxml elements\<close>

text \<open>
  An element of an lxml tree: its tag, its attributes in document order, its text, its
  child elements and its tail (the text after its end tag). Comments and processing
  instructions, which libvirt's descriptors do not contain, are not modelled. A tree has
  no sharing, so the in-place updates of the source are updates of the subtree at the
  node's position.
\<close>

datatype element =
  Element (tag: string) (attrib: "(string \<times> string) list") (el_text: "string option")
    (children: "element list") (tail: "string option")

text \<open>Storing under a key of a dictionary that keeps its insertion order.\<close>

fun setitem :: "'k \<Rightarrow> 'v \<Rightarrow> ('k \<times> 'v) list \<Rightarrow> ('k \<times> 'v) list" where
  "setitem k v [] = [(k, v)]"
| "setitem k v (p # ps) = (if fst p = k then (k, v) # ps else p # setitem k v ps)"

text \<open>
  \<^verbatim>\<open>d[k]\<close> on a value that may be \<^verbatim>\<open>None\<close>: subscripting \<^verbatim>\<open>None\<close> is a
  \<^verbatim>\<open>TypeError\<close>, a missing key a \<^verbatim>\<open>KeyError\<close>.
\<close>

definition getitem :: "(string \<times> 'v) list option \<Rightarrow> string \<Rightarrow> error + 'v" where
  "getitem d k =
     (case d of
        None \<Rightarrow> Inl TypeError
      | Some al \<Rightarrow> (case map_of al k of None \<Rightarrow> Inl KeyError | Some v \<Rightarrow> Inr v))"

text \<open>\<^verbatim>\<open>element.get(key)\<close>.\<close>

definition get :: "element \<Rightarrow> string \<Rightarrow> string option" where
  "get e k = map_of (attrib e) k"

text \<open>
  \<^verbatim>\<open>element.set(key, value)\<close>. lxml accepts only strings as attribute values and raises
  \<^verbatim>\<open>TypeError\<close> for \<^verbatim>\<open>None\<close>.
\<close>

definition set_attr :: "element \<Rightarrow> string \<Rightarrow> string option \<Rightarrow> error + element" where
  "set_attr e k v =
     (case v of
        None \<Rightarrow> Inl TypeError
      | Some s \<Rightarrow>
          Inr (Element (tag e) (setitem k s (attrib e)) (el_text e) (children e) (tail e)))"

text \<open>\<^verbatim>\<open>element.find(tag)\<close>: the first child with that tag.\<close>

definition find_child :: "element \<Rightarrow> string \<Rightarrow> element option" where
  "find_child e t = find (\<lambda>c. tag c = t) (children e)"

text \<open>
  \<^verbatim>\<open>element.findtext(tag)\<close>: \<^verbatim>\<open>None\<close> without such a child, else the child's text, the
  empty string standing for a missing text.
\<close>

definition findtext :: "element \<Rightarrow> string \<Rightarrow> string option" where
  "findtext e t =
     (case find_child e t of
        None \<Rightarrow> None
      | Some c \<Rightarrow> Some (case el_text c of None \<Rightarrow> [] | Some s \<Rightarrow> s))"

text \<open>Putting a changed child back at the position of the first child with its tag.\<close>

fun put_child :: "element \<Rightarrow> element list \<Rightarrow> element list" where
  "put_child c' [] = []"
| "put_child c' (c # cs) = (if tag c = tag c' then c' # cs else c # put_child c' cs)"

text \<open>
  The steps of the paths the module uses: \<^verbatim>\<open>tag\<close> and \<^verbatim>\<open>tag[@key='value']\<close>, each
  selecting children of the nodes selected so far.
\<close>

datatype step = Child string | ChildWhere string string string

fun step_tag :: "step \<Rightarrow> string" where
  "step_tag (Child t) = t"
| "step_tag (ChildWhere t k v) = t"

fun matches :: "step \<Rightarrow> element \<Rightarrow> bool" where
  "matches (Child t) e = (tag e = t)"
| "matches (ChildWhere t k v) e = (tag e = t \<and> get e k = Some v)"

text \<open>\<^verbatim>\<open>element.findall(path)\<close>, in document order.\<close>

fun findall :: "step list \<Rightarrow> element \<Rightarrow> element list" where
  "findall [] e = [e]"
| "findall (s # ss) e = concat (map (findall ss) (filter (matches s) (children e)))"

text \<open>Running a body that may raise over a list, from left to right.\<close>

fun map_err :: "('a \<Rightarrow> error + 'b) \<Rightarrow> 'a list \<Rightarrow> error + 'b list" where
  "map_err f [] = Inr []"
| "map_err f (x # xs) =
     (case f x of
        Inl e \<Rightarrow> Inl e
      | Inr y \<Rightarrow> (case map_err f xs of Inl e \<Rightarrow> Inl e | Inr ys \<Rightarrow> Inr (y # ys)))"

text \<open>
  \<^verbatim>\<open>for dev in xml_doc.findall(path): body\<close>, where the body updates \<^verbatim>\<open>dev\<close> in place;
  the first exception ends the loop.
\<close>

fun update_at :: "step list \<Rightarrow> (element \<Rightarrow> error + element) \<Rightarrow> element \<Rightarrow> error + element" where
  "update_at [] f e = f e"
| "update_at (s # ss) f e =
     (case map_err (\<lambda>c. if matches s c then update_at ss f c else Inr c) (children e) of
        Inl err \<Rightarrow> Inl err
      | Inr cs \<Rightarrow> Inr (Element (tag e) (attrib e) (el_text e) cs (tail e)))"

text \<open>The same loops with a body that also records the calls it makes to a callback.\<close>

fun map_log :: "('a \<Rightarrow> error + 'b \<times> 'w list) \<Rightarrow> 'a list \<Rightarrow> error + 'b list \<times> 'w list" where
  "map_log f [] = Inr ([], [])"
| "map_log f (x # xs) =
     (case f x of
        Inl e \<Rightarrow> Inl e
      | Inr (y, w) \<Rightarrow>
          (case map_log f xs of Inl e \<Rightarrow> Inl e | Inr (ys, ws) \<Rightarrow> Inr (y # ys, w @ ws)))"

fun update_at_log ::
  "step list \<Rightarrow> (element \<Rightarrow> error + element \<times> 'w list) \<Rightarrow> element \<Rightarrow> error + element \<times> 'w list" where
  "update_at_log [] f e = f e"
| "update_at_log (s # ss) f e =
     (case map_log (\<lambda>c. if matches s c then update_at_log ss f c else Inr (c, [])) (children e) of
        Inl err \<Rightarrow> Inl err
      | Inr (cs, ws) \<Rightarrow> Inr (Element (tag e) (attrib e) (el_text e) cs (tail e), ws))"

subsection \<open>The migration data\<close>

text \<open>
  A block device mapping of \<^verbatim>\<open>migrate_data.bdms\<close>: its serial, its connection info (a
  dictionary, or \<^verbatim>\<open>None\<close>) and the disk info that \<^verbatim>\<open>as_disk_info()\<close> returns.
\<close>

record bdm_info =
  serial :: string
  connection_info :: "(string \<times> string) list option"
  as_disk_info :: "(string \<times> string) list"

text \<open>
  The fields of \<^verbatim>\<open>LibvirtLiveMigrateData\<close> that the module reads. A listen address is
  \<open>None\<close> when \<^verbatim>\<open>obj_attr_is_set\<close> is false for it, and \<open>Some s\<close> when it is set and
  \<^verbatim>\<open>str\<close> of its value is \<open>s\<close>.
\<close>

record migrate_data =
  graphics_listen_addr_vnc :: "string option"
  graphics_listen_addr_spice :: "string option"
  serial_listen_addr_field :: "string option"
  bdms :: "bdm_info list"

subsection \<open>graphics_listen_addrs, serial_listen_addr\<close>

definition graphics_listen_addrs :: "migrate_data \<Rightarrow> (string \<times> string option) list option" where
  "graphics_listen_addrs migrate_data =
     (let listen_addrs =
            (if graphics_listen_addr_vnc migrate_data \<noteq> None
                \<or> graphics_listen_addr_spice migrate_data \<noteq> None
             then Some [(''vnc'', None), (''spice'', None)] else None);
          listen_addrs =
            (if graphics_listen_addr_vnc migrate_data \<noteq> None
             then map_option (setitem ''vnc'' (graphics_listen_addr_vnc migrate_data)) listen_addrs
             else listen_addrs);
          listen_addrs =
            (if graphics_listen_addr_spice migrate_data \<noteq> None
             then map_option (setitem ''spice'' (graphics_listen_addr_spice migrate_data)) listen_addrs
             else listen_addrs)
      in listen_addrs)"

definition serial_listen_addr :: "migrate_data \<Rightarrow> string option" where
  "serial_listen_addr migrate_data =
     (let listen_addr = None;
          listen_addr =
            (if serial_listen_addr_field migrate_data \<noteq> None
             then serial_listen_addr_field migrate_data else listen_addr)
      in listen_addr)"

subsection \<open>_update_graphics_xml\<close>

text \<open>The body of the loop over \<^verbatim>\<open>./devices/graphics\<close>.\<close>

definition update_graphics_dev ::
  "(string \<times> string option) list option \<Rightarrow> element \<Rightarrow> error + element" where
  "update_graphics_dev listen_addrs dev =
     (let gr_type = get dev ''type'';
          listen_tag = find_child dev ''listen''
      in case gr_type of
           None \<Rightarrow> Inr dev
         | Some t \<Rightarrow>
             if t = ''vnc'' \<or> t = ''spice'' then
               and_then
                 (case listen_tag of
                    None \<Rightarrow> Inr dev
                  | Some lt \<Rightarrow>
                      and_then (getitem listen_addrs t) (\<lambda>addr.
                      and_then (set_attr lt ''address'' addr) (\<lambda>lt'.
                        Inr (Element (tag dev) (attrib dev) (el_text dev)
                               (put_child lt' (children dev)) (tail dev)))))
                 (\<lambda>dev.
                    if get dev ''listen'' \<noteq> None
                    then and_then (getitem listen_addrs t) (\<lambda>addr. set_attr dev ''listen'' addr)
                    else Inr dev)
             else Inr dev)"

definition update_graphics_xml :: "element \<Rightarrow> migrate_data \<Rightarrow> error + element" where
  "update_graphics_xml xml_doc migrate_data =
     (let listen_addrs = graphics_listen_addrs migrate_data
      in update_at [Child ''devices'', Child ''graphics'']
           (update_graphics_dev listen_addrs) xml_doc)"

subsection \<open>_update_serial_xml\<close>

text \<open>The body of both loops, over the \<^verbatim>\<open>source\<close> children of TCP serials and consoles.\<close>

definition update_serial_source :: "string option \<Rightarrow> element \<Rightarrow> error + element" where
  "update_serial_source listen_addr dev =
     (if get dev ''host'' \<noteq> None then set_attr dev ''host'' listen_addr else Inr dev)"

definition update_serial_xml :: "element \<Rightarrow> migrate_data \<Rightarrow> error + element" where
  "update_serial_xml xml_doc migrate_data =
     (let listen_addr = serial_listen_addr migrate_data
      in and_then
           (update_at [Child ''devices'', ChildWhere ''serial'' ''type'' ''tcp'', Child ''source'']
              (update_serial_source listen_addr) xml_doc)
           (update_at [Child ''devices'', ChildWhere ''console'' ''type'' ''tcp'', Child ''source'']
              (update_serial_source listen_addr)))"

subsection \<open>_update_volume_xml\<close>

text \<open>\<^verbatim>\<open>{x.serial: x for x in migrate_bdm_info}\<close>: a later entry replaces an earlier one.\<close>

definition bdm_info_by_serial :: "bdm_info list \<Rightarrow> string \<Rightarrow> bdm_info option" where
  "bdm_info_by_serial migrate_bdm_info = fold (\<lambda>x m. m(serial x \<mapsto> x)) migrate_bdm_info Map.empty"

definition clear_tail :: "element \<Rightarrow> element" where
  "clear_tail e = Element (tag e) (attrib e) (el_text e) (children e) None"

text \<open>
  \<^verbatim>\<open>list.insert(index, x)\<close> for an index that is not negative (past the end it
  appends), and the removal of the child at an index.
\<close>

definition insert_at :: "nat \<Rightarrow> 'a \<Rightarrow> 'a list \<Rightarrow> 'a list" where
  "insert_at i x xs = take i xs @ x # drop i xs"

definition remove_at :: "nat \<Rightarrow> 'a list \<Rightarrow> 'a list" where
  "remove_at i xs = take i xs @ drop (Suc i) xs"

text \<open>
  \<^verbatim>\<open>for cnt, item_src in enumerate(disk_dev)\<close> with its inner loop over
  \<^verbatim>\<open>xml_doc2.findall(item_src.tag)\<close>. The arguments are \<^verbatim>\<open>cnt\<close>, the children still to
  be enumerated, the current children of \<^verbatim>\<open>disk_dev\<close> and the current children of
  \<^verbatim>\<open>xml_doc2\<close>. The inner loop runs over the list that \<^verbatim>\<open>findall\<close> returned:
  \<^item> no match: nothing happens;
  \<^item> one match: \<^verbatim>\<open>item_src\<close>, which is the child at index \<^verbatim>\<open>cnt\<close>, is removed, and
    \<^verbatim>\<open>item_dst\<close> is inserted at \<^verbatim>\<open>cnt\<close> with its tail cleared; the insertion moves it
    out of \<^verbatim>\<open>xml_doc2\<close>. The number of children is the same afterwards, so the
    enumeration goes on with the child that followed \<^verbatim>\<open>item_src\<close>;
  \<^item> more matches: the second round removes \<^verbatim>\<open>item_src\<close> again, which is no longer a
    child of \<^verbatim>\<open>disk_dev\<close>, and \<^verbatim>\<open>remove\<close> raises \<^verbatim>\<open>ValueError\<close>.
\<close>

fun replace_items ::
  "nat \<Rightarrow> element list \<Rightarrow> element list \<Rightarrow> element list \<Rightarrow> error + element list \<times> element list" where
  "replace_items cnt [] disk_dev xml_doc2 = Inr (disk_dev, xml_doc2)"
| "replace_items cnt (item_src # rest) disk_dev xml_doc2 =
     (case filter (\<lambda>d. tag d = tag item_src) xml_doc2 of
        [] \<Rightarrow> replace_items (Suc cnt) rest disk_dev xml_doc2
      | [item_dst] \<Rightarrow>
          replace_items (Suc cnt) rest
            (insert_at cnt (clear_tail item_dst) (remove_at cnt disk_dev))
            (filter (\<lambda>d. tag d \<noteq> tag item_src) xml_doc2)
      | item_dst # item_dst2 # others \<Rightarrow> Inl ValueError)"

text \<open>
  \<^verbatim>\<open>for item_dst in list(xml_doc2)\<close>: what is left of \<^verbatim>\<open>xml_doc2\<close> is inserted, item by
  item, at the last value of \<^verbatim>\<open>cnt\<close>.
\<close>

fun insert_items :: "nat \<Rightarrow> element list \<Rightarrow> element list \<Rightarrow> element list" where
  "insert_items cnt [] disk_dev = disk_dev"
| "insert_items cnt (item_dst # rest) disk_dev =
     insert_items cnt rest (insert_at cnt (clear_tail item_dst) disk_dev)"

text \<open>
  The body of the loop over \<^verbatim>\<open>./devices/disk\<close>. \<^verbatim>\<open>get_volume_config\<close> stands for the
  callback followed by \<^verbatim>\<open>conf.to_xml()\<close> and the parser: it gives the parsed disk
  element or raises. The second component of the result lists the calls of the callback.
  After the first loop \<^verbatim>\<open>cnt\<close> is the index of the last child; a disk without children
  would leave \<^verbatim>\<open>cnt\<close> unbound, but such a disk has no serial and is skipped before.
\<close>

definition update_disk ::
  "(string \<Rightarrow> bdm_info option) \<Rightarrow>
   ((string \<times> string) list \<Rightarrow> (string \<times> string) list \<Rightarrow> error + element) \<Rightarrow>
   element \<Rightarrow> error + element \<times> ((string \<times> string) list \<times> (string \<times> string) list) list" where
  "update_disk by_serial get_volume_config disk_dev =
     (let serial_source = findtext disk_dev ''serial'';
          bdm_info = (case serial_source of None \<Rightarrow> None | Some s \<Rightarrow> by_serial s)
      in case bdm_info of
           None \<Rightarrow> Inr (disk_dev, [])
         | Some b \<Rightarrow>
             (case connection_info b of
                None \<Rightarrow> Inr (disk_dev, [])
              | Some ci \<Rightarrow>
                  if ci = [] then Inr (disk_dev, [])
                  else
                    (case get_volume_config ci (as_disk_info b) of
                       Inl e \<Rightarrow> Inl e
                     | Inr xml_doc2 \<Rightarrow>
                         (let serial_dest = findtext xml_doc2 ''serial''
                          in if serial_dest \<noteq> None \<and> serial_dest \<noteq> Some []
                                \<and> serial_source = serial_dest
                             then
                               (case replace_items 0 (children disk_dev) (children disk_dev)
                                       (children xml_doc2) of
                                  Inl e \<Rightarrow> Inl e
                                | Inr (items, left) \<Rightarrow>
                                    if children disk_dev = [] then Inl UnboundLocalError
                                    else
                                      Inr (Element (tag disk_dev) (attrib disk_dev) (el_text disk_dev)
                                             (insert_items (length (children disk_dev) - 1) left items)
                                             (tail disk_dev),
                                           [(ci, as_disk_info b)]))
                             else Inr (disk_dev, [(ci, as_disk_info b)])))))"

definition update_volume_xml ::
  "element \<Rightarrow> migrate_data \<Rightarrow>
   ((string \<times> string) list \<Rightarrow> (string \<times> string) list \<Rightarrow> error + element) \<Rightarrow>
   error + element \<times> ((string \<times> string) list \<times> (string \<times> string) list) list" where
  "update_volume_xml xml_doc migrate_data get_volume_config =
     (let migrate_bdm_info = bdms migrate_data
      in update_at_log [Child ''devices'', Child ''disk'']
           (update_disk (bdm_info_by_serial migrate_bdm_info) get_volume_config) xml_doc)"

subsection \<open>get_updated_guest_xml\<close>

text \<open>
  The three patches in the order of the source, on the parsed descriptor; the parsing of
  \<^verbatim>\<open>guest.get_xml_desc\<close> and the final \<^verbatim>\<open>etree.tostring\<close> are lxml's.
\<close>

definition get_updated_guest_xml ::
  "element \<Rightarrow> migrate_data \<Rightarrow>
   ((string \<times> string) list \<Rightarrow> (string \<times> string) list \<Rightarrow> error + element) \<Rightarrow>
   error + element \<times> ((string \<times> string) list \<times> (string \<times> string) list) list" where
  "get_updated_guest_xml xml_doc migrate_data get_volume_config =
     and_then (update_graphics_xml xml_doc migrate_data) (\<lambda>xml_doc.
     and_then (update_serial_xml xml_doc migrate_data) (\<lambda>xml_doc.
       update_volume_xml xml_doc migrate_data get_volume_config))"

text \<open>The result of a patch without the list of callback calls.\<close>

definition without_log :: "error + 'a \<times> 'w list \<Rightarrow> error + 'a" where
  "without_log r = (case r of Inl e \<Rightarrow> Inl e | Inr (x, w) \<Rightarrow> Inr x)"

subsection \<open>Example data\<close>

text \<open>
  A disk as libvirt describes it, the disk element that the destination's volume driver
  gives for the same volume, a descriptor with a VNC display, a TCP serial port, a TCP
  console and that disk, and two values of the migration data: one with the listen
  addresses and the disk's block device mapping, and one with nothing set.
\<close>

definition example_disk :: element where
  "example_disk =
     Element ''disk'' [(''type'', ''block''), (''device'', ''disk'')] None
       [Element ''driver'' [(''name'', ''qemu''), (''type'', ''raw''), (''cache'', ''none'')] None [] None,
        Element ''source'' [(''dev'', ''/dev/lun-X'')] None [] None,
        Element ''target'' [(''bus'', ''virtio''), (''dev'', ''vdb'')] None [] None,
        Element ''serial'' [] (Some ''58a84f6d'') [] None,
        Element ''address'' [(''type'', ''pci''), (''slot'', ''0x04'')] None [] None]
       None"

definition example_disk_conf :: element where
  "example_disk_conf =
     Element ''disk'' [(''type'', ''block''), (''device'', ''disk'')] None
       [Element ''driver'' [(''name'', ''qemu''), (''type'', ''raw''), (''cache'', ''none'')] None [] None,
        Element ''source'' [(''dev'', ''/dev/lun-Z'')] None [] None,
        Element ''target'' [(''bus'', ''virtio''), (''dev'', ''vdb'')] None [] None,
        Element ''serial'' [] (Some ''58a84f6d'') [] None]
       None"

definition example_xml_doc :: element where
  "example_xml_doc =
     Element ''domain'' [(''type'', ''kvm'')] None
       [Element ''devices'' [] None
          [Element ''graphics'' [(''type'', ''vnc''), (''listen'', ''10.0.0.1'')] None
             [Element ''listen'' [(''type'', ''address''), (''address'', ''10.0.0.1'')] None [] None]
             None,
           Element ''serial'' [(''type'', ''tcp'')] None
             [Element ''source'' [(''mode'', ''bind''), (''host'', ''10.0.0.1'')] None [] None]
             None,
           Element ''console'' [(''type'', ''tcp'')] None
             [Element ''source'' [(''mode'', ''bind''), (''host'', ''10.0.0.1'')] None [] None]
             None,
           example_disk]
          None]
       None"

definition example_migrate_data :: migrate_data where
  "example_migrate_data =
     \<lparr>graphics_listen_addr_vnc = Some ''10.0.0.2'',
      graphics_listen_addr_spice = None,
      serial_listen_addr_field = Some ''10.0.0.2'',
      bdms = [\<lparr>serial = ''58a84f6d'',
               connection_info = Some [(''driver_volume_type'', ''iscsi'')],
               as_disk_info = [(''dev'', ''vdb''), (''bus'', ''virtio''), (''type'', ''disk'')]\<rparr>]\<rparr>"

definition unset_migrate_data :: migrate_data where
  "unset_migrate_data =
     \<lparr>graphics_listen_addr_vnc = None,
      graphics_listen_addr_spice = None,
      serial_listen_addr_field = None,
      bdms = []\<rparr>"

text \<open>
  A disk element of the destination with two children of one tag, and the example
  descriptor as a function of the listen address and of the disk's children.
\<close>

definition example_disk_conf_repeated :: element where
  "example_disk_conf_repeated =
     Element ''disk'' [(''type'', ''block''), (''device'', ''disk'')] None
       [Element ''driver'' [(''name'', ''qemu''), (''type'', ''raw''), (''cache'', ''none'')] None [] None,
        Element ''source'' [(''dev'', ''/dev/lun-Z'')] None [] None,
        Element ''target'' [(''bus'', ''virtio''), (''dev'', ''vdb'')] None [] None,
        Element ''serial'' [] (Some ''58a84f6d'') [] None,
        Element ''iotune'' [(''id'', ''1'')] None [] None,
        Element ''iotune'' [(''id'', ''2'')] None [] None]
       None"

definition example_domain :: "string \<Rightarrow> element list \<Rightarrow> element" where
  "example_domain addr disk_items =
     Element ''domain'' [(''type'', ''kvm'')] None
       [Element ''devices'' [] None
          [Element ''graphics'' [(''type'', ''vnc''), (''listen'', addr)] None
             [Element ''listen'' [(''type'', ''address''), (''address'', addr)] None [] None]
             None,
           Element ''serial'' [(''type'', ''tcp'')] None
             [Element ''source'' [(''mode'', ''bind''), (''host'', addr)] None [] None]
             None,
           Element ''console'' [(''type'', ''tcp'')] None
             [Element ''source'' [(''mode'', ''bind''), (''host'', addr)] None [] None]
             None,
           Element ''disk'' [(''type'', ''block''), (''device'', ''disk'')] None disk_items None]
          None]
       None"

text \<open>
  A second disk, whose serial no block device mapping of the example has, the example
  disk after the merge with the destination's disk element, and a descriptor with two
  disks, the second of them the disk without a mapping.
\<close>

definition example_other_disk :: element where
  "example_other_disk =
     Element ''disk'' [(''type'', ''file''), (''device'', ''disk'')] None
       [Element ''driver'' [(''name'', ''qemu''), (''type'', ''qcow2'')] None [] None,
        Element ''source'' [(''file'', ''/var/lib/nova/disk'')] None [] None,
        Element ''target'' [(''bus'', ''virtio''), (''dev'', ''vda'')] None [] None,
        Element ''serial'' [] (Some ''0000beef'') [] None]
       None"

definition example_disk_merged :: element where
  "example_disk_merged =
     Element ''disk'' [(''type'', ''block''), (''device'', ''disk'')] None
       (children example_disk_conf @
        [Element ''address'' [(''type'', ''pci''), (''slot'', ''0x04'')] None [] None])
       None"

definition example_mixed_doc :: "element \<Rightarrow> element" where
  "example_mixed_doc first_disk =
     Element ''domain'' [(''type'', ''kvm'')] None
       [Element ''devices'' [] None [first_disk, example_other_disk] None]
       None"

section \<open>Outcome resolution\<close>

text \<open>
  C3. Every outcome of the guest-activity query is mapped to exactly one of completed and
  failed: an active guest gives failed, an inactive guest gives completed, a libvirt error
  with the "no such domain" code gives completed, and a libvirt error with any other code
  gives failed.
\<close>

theorem find_job_type_total:
  "find_job_type (Returns True) = VIR_DOMAIN_JOB_FAILED \<and>
   find_job_type (Returns False) = VIR_DOMAIN_JOB_COMPLETED \<and>
   find_job_type (Raises ex) =
     (if get_error_code ex = VIR_ERR_NO_DOMAIN then VIR_DOMAIN_JOB_COMPLETED
      else VIR_DOMAIN_JOB_FAILED) \<and>
   ((find_job_type q = VIR_DOMAIN_JOB_COMPLETED) \<noteq> (find_job_type q = VIR_DOMAIN_JOB_FAILED))"
  by (cases q) (simp_all add: find_job_type_def)

section \<open>Abort policy\<close>

text \<open>
  C1. \<^verbatim>\<open>should_abort\<close> is true exactly when the progress timeout is nonzero and strictly
  exceeded by the time since the last progress, or the completion timeout is nonzero and
  strictly exceeded by the elapsed time. A zero timeout switches its check off, and a
  value equal to the timeout does not abort.
\<close>

theorem should_abort_iff:
  "should_abort now progress_time progress_timeout elapsed completion_timeout =
     ((progress_timeout \<noteq> 0 \<and> now - progress_time > progress_timeout) \<or>
      (completion_timeout \<noteq> 0 \<and> elapsed > completion_timeout)) \<and>
   should_abort now progress_time 0 elapsed 0 = False \<and>
   should_abort now progress_time (now - progress_time) elapsed elapsed = False"
  by (simp add: should_abort_def)

section \<open>Downtime scheduling\<close>

lemma scan_steps_filter:
  "scan_steps elapsed steps acc =
     (if filter (\<lambda>step. fst step < elapsed) steps = [] then acc
      else Some (last (filter (\<lambda>step. fst step < elapsed) steps)))"
  by (induction steps arbitrary: acc) auto

text \<open>
  C2. \<^verbatim>\<open>update_downtime\<close> selects the last step, in list order, whose threshold is strictly
  below the elapsed time. With no such step it returns the old downtime; when the selected
  step's downtime equals the old downtime it returns the old downtime and does not call
  the guest; otherwise it returns the selected step's downtime.
\<close>

theorem update_downtime_last_qualifying:
  "returned (update_downtime guest olddowntime steps elapsed) =
     (let qualifying = filter (\<lambda>step. fst step < elapsed) steps in
      if qualifying = [] then olddowntime
      else if Some (snd (last qualifying)) = olddowntime then olddowntime
      else Some (snd (last qualifying))) \<and>
   configured (update_downtime guest olddowntime steps elapsed) =
     (let qualifying = filter (\<lambda>step. fst step < elapsed) steps in
      if qualifying = [] then []
      else if Some (snd (last qualifying)) = olddowntime then []
      else [snd (last qualifying)])"
  by (simp add: update_downtime_def scan_steps_filter Let_def split: option.splits)

theorem update_downtime_last_qualifying_witness:
  "returned (update_downtime (\<lambda>ms. None) (Some 100) [(0, 100), (10, 200), (30, 300)] 5) = Some 100 \<and>
   configured (update_downtime (\<lambda>ms. None) (Some 100) [(0, 100), (10, 200), (30, 300)] 5) = [] \<and>
   returned (update_downtime (\<lambda>ms. None) (Some 100) [(0, 100), (10, 200), (30, 300)] 15) = Some 200 \<and>
   configured (update_downtime (\<lambda>ms. None) (Some 100) [(0, 100), (10, 200), (30, 300)] 15) = [200] \<and>
   returned (update_downtime (\<lambda>ms. None) (Some 200) [(0, 100), (10, 200), (30, 300)] 35) = Some 300"
  using update_downtime_last_qualifying [of "\<lambda>ms. None" "Some 100" "[(0, 100), (10, 200), (30, 300)]" 5]
    update_downtime_last_qualifying [of "\<lambda>ms. None" "Some 100" "[(0, 100), (10, 200), (30, 300)]" 15]
    update_downtime_last_qualifying [of "\<lambda>ms. None" "Some 200" "[(0, 100), (10, 200), (30, 300)]" 35]
  by simp

text \<open>
  C4. When the selected step's downtime differs from the old downtime and the call to the
  guest raises, \<^verbatim>\<open>update_downtime\<close> still returns the selected step's downtime, the
  same value as with a guest that accepts the call; the error ends in a logged warning
  and is not raised to the caller.
\<close>

theorem update_downtime_apply_failure:
  assumes "filter (\<lambda>step. fst step < elapsed) steps \<noteq> []"
    and "Some (snd (last (filter (\<lambda>step. fst step < elapsed) steps))) \<noteq> olddowntime"
    and "guest (snd (last (filter (\<lambda>step. fst step < elapsed) steps))) = Some e"
  shows "returned (update_downtime guest olddowntime steps elapsed) =
           Some (snd (last (filter (\<lambda>step. fst step < elapsed) steps))) \<and>
         returned (update_downtime guest olddowntime steps elapsed) =
           returned (update_downtime (\<lambda>ms. None) olddowntime steps elapsed) \<and>
         configured (update_downtime guest olddowntime steps elapsed) =
           [snd (last (filter (\<lambda>step. fst step < elapsed) steps))] \<and>
         warnings (update_downtime guest olddowntime steps elapsed) =
           [(snd (last (filter (\<lambda>step. fst step < elapsed) steps)), e)]"
  using assms by (simp add: update_downtime_def scan_steps_filter)

theorem update_downtime_apply_failure_witness:
  "filter (\<lambda>step. fst step < 15) [(0 :: int, 100 :: int), (10, 200), (30, 300)] \<noteq> [] \<and>
   Some (snd (last (filter (\<lambda>step. fst step < 15) [(0 :: int, 100 :: int), (10, 200), (30, 300)]))) \<noteq> Some 100 \<and>
   returned (update_downtime (\<lambda>ms. Some (LibvirtError 1 ''internal error''))
      (Some 100) [(0, 100), (10, 200), (30, 300)] 15) = Some 200 \<and>
   warnings (update_downtime (\<lambda>ms. Some (LibvirtError 1 ''internal error''))
      (Some 100) [(0, 100), (10, 200), (30, 300)] 15) = [(200, LibvirtError 1 ''internal error'')]"
  using update_downtime_apply_failure [of 15 "[(0, 100), (10, 200), (30, 300)]" "Some 100"
      "\<lambda>ms. Some (LibvirtError 1 ''internal error'')" "LibvirtError 1 ''internal error''"]
  by simp

text \<open>
  C10. With the old downtime unset (\<^verbatim>\<open>None\<close>) and at least one step whose threshold is
  strictly below the elapsed time, the equality branch is never taken: the guest is
  called once, with the selected step's downtime, and that downtime is returned.
\<close>

theorem update_downtime_unset_old:
  assumes "\<exists>step \<in> set steps. fst step < elapsed"
  shows "returned (update_downtime guest None steps elapsed) =
           Some (snd (last (filter (\<lambda>step. fst step < elapsed) steps))) \<and>
         configured (update_downtime guest None steps elapsed) =
           [snd (last (filter (\<lambda>step. fst step < elapsed) steps))]"
proof -
  from assms have "filter (\<lambda>step. fst step < elapsed) steps \<noteq> []"
    by (auto simp: filter_empty_conv)
  then show ?thesis
    by (simp add: update_downtime_def scan_steps_filter split: option.splits)
qed

theorem update_downtime_unset_old_witness:
  "(\<exists>step \<in> set [(0 :: int, 100 :: int), (10, 200), (30, 300)]. fst step < (15 :: int)) \<and>
   returned (update_downtime (\<lambda>ms. None) None [(0, 100), (10, 200), (30, 300)] 15) = Some 200 \<and>
   configured (update_downtime (\<lambda>ms. None) None [(0, 100), (10, 200), (30, 300)] 15) = [200]"
proof -
  have h: "\<exists>step \<in> set [(0 :: int, 100 :: int), (10, 200), (30, 300)]. fst step < (15 :: int)"
    by simp
  show ?thesis
    using h update_downtime_unset_old [OF h, of "\<lambda>ms. None"] by simp
qed

section \<open>Loops over the nodes of a path\<close>

lemma element_rebuild [simp]:
  "Element (tag e) (attrib e) (el_text e) (children e) (tail e) = e"
  by (cases e) simp

lemma map_err_Inr_D:
  "map_err f xs = Inr ys \<Longrightarrow> list_all2 (\<lambda>x y. f x = Inr y) xs ys"
  by (induction xs arbitrary: ys) (auto split: sum.splits)

lemma map_err_Inr_I:
  "list_all2 (\<lambda>x y. f x = Inr y) xs ys \<Longrightarrow> map_err f xs = Inr ys"
  by (induction rule: list_all2_induct) auto

lemma map_err_Inr_iff:
  "map_err f xs = Inr ys \<longleftrightarrow> list_all2 (\<lambda>x y. f x = Inr y) xs ys"
  using map_err_Inr_I map_err_Inr_D by (rule iffI [rotated])

lemma map_err_Inl:
  "map_err f xs = Inl e \<Longrightarrow> \<exists>x \<in> set xs. f x = Inl e"
  by (induction xs) (auto split: sum.splits)

lemma map_err_fails:
  "x \<in> set xs \<Longrightarrow> f x = Inl e \<Longrightarrow> \<exists>e'. map_err f xs = Inl e'"
  by (induction xs) (auto split: sum.splits)

lemma map_err_fixed:
  "(\<And>x. x \<in> set xs \<Longrightarrow> f x = Inr x) \<Longrightarrow> map_err f xs = Inr xs"
  by (induction xs) auto

lemma map_err_total:
  "(\<And>x. x \<in> set xs \<Longrightarrow> \<exists>y. f x = Inr y) \<Longrightarrow> \<exists>ys. map_err f xs = Inr ys"
proof (induction xs)
  case Nil
  then show ?case by simp
next
  case (Cons x xs)
  then obtain y where "f x = Inr y" by auto
  moreover from Cons obtain ys where "map_err f xs = Inr ys" by auto
  ultimately show ?case by simp
qed

lemma matches_step_tag: "matches s c \<Longrightarrow> tag c = step_tag s"
  by (cases s) auto

lemma matches_shallow:
  "tag c' = tag c \<Longrightarrow> attrib c' = attrib c \<Longrightarrow> matches s c' = matches s c"
  by (cases s) (auto simp: get_def)

lemma update_at_shallow:
  assumes "ss \<noteq> []" and "update_at ss f c = Inr c'"
  shows "tag c' = tag c \<and> attrib c' = attrib c \<and> el_text c' = el_text c \<and> tail c' = tail c"
  using assms by (cases ss) (auto split: sum.splits)

lemma update_at_children:
  assumes "update_at (s # ss) f e = Inr e'"
  shows "list_all2 (\<lambda>c c'. (if matches s c then update_at ss f c else Inr c) = Inr c')
           (children e) (children e')"
  using assms by (auto split: sum.splits simp: map_err_Inr_iff)

lemma update_at_tag:
  assumes "update_at ss f c = Inr c'" and "\<And>n n'. f n = Inr n' \<Longrightarrow> tag n' = tag n"
  shows "tag c' = tag c"
  using assms by (cases ss) (auto split: sum.splits)

lemma concat_filter_all2:
  assumes "list_all2 (\<lambda>c c'. P c' = P c \<and> (P c \<longrightarrow> list_all2 R (g c) (g c'))) xs ys"
  shows "list_all2 R (concat (map g (filter P xs))) (concat (map g (filter P ys)))"
  using assms by (induction rule: list_all2_induct) (auto intro: list_all2_appendI)

lemma update_at_findall:
  assumes "update_at ss f e = Inr e'"
    and "\<And>n n'. f n = Inr n' \<Longrightarrow> tag n' = tag n"
    and "ss = [] \<or> (\<exists>t. last ss = Child t)"
  shows "list_all2 (\<lambda>n n'. f n = Inr n') (findall ss e) (findall ss e')"
  using assms
proof (induction ss arbitrary: e e')
  case Nil
  then show ?case by simp
next
  case (Cons s ss)
  have kids: "list_all2 (\<lambda>c c'. (if matches s c then update_at ss f c else Inr c) = Inr c')
           (children e) (children e')"
    using Cons.prems(1) by (rule update_at_children)
  have "list_all2 (\<lambda>c c'. matches s c' = matches s c \<and>
          (matches s c \<longrightarrow> list_all2 (\<lambda>n n'. f n = Inr n') (findall ss c) (findall ss c')))
          (children e) (children e')"
    using kids
  proof (rule list_all2_mono)
    fix c c'
    assume h: "(if matches s c then update_at ss f c else Inr c) = Inr c'"
    show "matches s c' = matches s c \<and>
          (matches s c \<longrightarrow> list_all2 (\<lambda>n n'. f n = Inr n') (findall ss c) (findall ss c'))"
    proof (cases "matches s c")
      case False
      with h show ?thesis by simp
    next
      case True
      with h have u: "update_at ss f c = Inr c'" by simp
      have m: "matches s c'"
      proof (cases "ss = []")
        case True
        with Cons.prems(3) obtain t where "s = Child t" by auto
        moreover have "tag c' = tag c" using u Cons.prems(2) by (rule update_at_tag)
        ultimately show ?thesis using \<open>matches s c\<close> by simp
      next
        case False
        from update_at_shallow [OF False u] have "matches s c' = matches s c"
          by (intro matches_shallow) simp_all
        with \<open>matches s c\<close> show ?thesis by simp
      qed
      have "ss = [] \<or> (\<exists>t. last ss = Child t)"
        using Cons.prems(3) by (cases "ss = []") auto
      with Cons.IH [OF u Cons.prems(2)] have "list_all2 (\<lambda>n n'. f n = Inr n') (findall ss c) (findall ss c')"
        by simp
      with m True show ?thesis by simp
    qed
  qed
  then have "list_all2 (\<lambda>n n'. f n = Inr n')
      (concat (map (findall ss) (filter (matches s) (children e))))
      (concat (map (findall ss) (filter (matches s) (children e'))))"
    by (rule concat_filter_all2)
  then show ?case by simp
qed

lemma update_at_fixed:
  "(\<And>n. n \<in> set (findall ss e) \<Longrightarrow> f n = Inr n) \<Longrightarrow> update_at ss f e = Inr e"
proof (induction ss arbitrary: e)
  case Nil
  then show ?case by simp
next
  case (Cons s ss)
  have "map_err (\<lambda>c. if matches s c then update_at ss f c else Inr c) (children e) = Inr (children e)"
  proof (rule map_err_fixed)
    fix c assume c: "c \<in> set (children e)"
    show "(if matches s c then update_at ss f c else Inr c) = Inr c"
    proof (cases "matches s c")
      case True
      have "update_at ss f c = Inr c"
      proof (rule Cons.IH)
        fix n assume "n \<in> set (findall ss c)"
        with c True have "n \<in> set (findall (s # ss) e)" by auto
        then show "f n = Inr n" by (rule Cons.prems)
      qed
      with True show ?thesis by simp
    qed simp
  qed
  then show ?case by simp
qed

lemma update_at_total:
  "(\<And>n. n \<in> set (findall ss e) \<Longrightarrow> \<exists>n'. f n = Inr n') \<Longrightarrow> \<exists>e'. update_at ss f e = Inr e'"
proof (induction ss arbitrary: e)
  case Nil
  then show ?case by simp
next
  case (Cons s ss)
  have "\<exists>cs. map_err (\<lambda>c. if matches s c then update_at ss f c else Inr c) (children e) = Inr cs"
  proof (rule map_err_total)
    fix c assume c: "c \<in> set (children e)"
    show "\<exists>y. (if matches s c then update_at ss f c else Inr c) = Inr y"
    proof (cases "matches s c")
      case True
      have "\<exists>c'. update_at ss f c = Inr c'"
      proof (rule Cons.IH)
        fix n assume "n \<in> set (findall ss c)"
        with c True have "n \<in> set (findall (s # ss) e)" by auto
        then show "\<exists>n'. f n = Inr n'" by (rule Cons.prems)
      qed
      with True show ?thesis by simp
    qed simp
  qed
  then show ?case by auto
qed

lemma update_at_Inl:
  "update_at ss f e = Inl err \<Longrightarrow> \<exists>n \<in> set (findall ss e). f n = Inl err"
proof (induction ss arbitrary: e)
  case Nil
  then show ?case by simp
next
  case (Cons s ss)
  from Cons.prems
  have "map_err (\<lambda>c. if matches s c then update_at ss f c else Inr c) (children e) = Inl err"
    by (auto split: sum.splits)
  then obtain c where c: "c \<in> set (children e)"
    and "(if matches s c then update_at ss f c else Inr c) = Inl err"
    by (blast dest: map_err_Inl)
  then have m: "matches s c" and "update_at ss f c = Inl err"
    by (auto split: if_splits)
  with Cons.IH obtain n where "n \<in> set (findall ss c)" "f n = Inl err" by blast
  with c m show ?case by auto
qed

lemma update_at_fails:
  "n \<in> set (findall ss e) \<Longrightarrow> f n = Inl err \<Longrightarrow> \<exists>err'. update_at ss f e = Inl err'"
proof (induction ss arbitrary: e)
  case Nil
  then show ?case by simp
next
  case (Cons s ss)
  from Cons.prems(1) obtain c where c: "c \<in> set (children e)" "matches s c"
    and n: "n \<in> set (findall ss c)" by auto
  from Cons.IH [OF n Cons.prems(2)] obtain err' where "update_at ss f c = Inl err'" by blast
  with c have "(if matches s c then update_at ss f c else Inr c) = Inl err'" by simp
  from map_err_fails [where f = "\<lambda>c. if matches s c then update_at ss f c else Inr c", OF c(1) this]
  obtain err'' where
    "map_err (\<lambda>c. if matches s c then update_at ss f c else Inr c) (children e) = Inl err''" ..
  then have "update_at (s # ss) f e = Inl err''" by simp
  then show ?case ..
qed

subsection \<open>Updates along another path\<close>

lemma without_log_simps [simp]:
  "without_log (Inl e) = Inl e" "without_log (Inr (x, w)) = Inr x"
  by (simp_all add: without_log_def)

lemma filter_all2_same:
  "list_all2 (\<lambda>c c'. c' = c \<or> (\<not> P c \<and> \<not> P c')) xs ys \<Longrightarrow> filter P ys = filter P xs"
  by (induction rule: list_all2_induct) auto

lemma concat_filter_same:
  "list_all2 (\<lambda>c c'. P c' = P c \<and> (P c \<longrightarrow> g c' = g c)) xs ys \<Longrightarrow>
     concat (map g (filter P ys)) = concat (map g (filter P xs))"
  by (induction rule: list_all2_induct) auto

lemma findall_update_other_head:
  assumes upd: "update_at (s' # ss') f e = Inr e'"
    and tagp: "\<And>n n'. f n = Inr n' \<Longrightarrow> tag n' = tag n"
    and diff: "step_tag s \<noteq> step_tag s'"
  shows "findall (s # ss) e' = findall (s # ss) e"
proof -
  have kids: "list_all2 (\<lambda>c c'. (if matches s' c then update_at ss' f c else Inr c) = Inr c')
           (children e) (children e')"
    using upd by (rule update_at_children)
  have "list_all2 (\<lambda>c c'. c' = c \<or> (\<not> matches s c \<and> \<not> matches s c')) (children e) (children e')"
    using kids
  proof (rule list_all2_mono)
    fix c c'
    assume h: "(if matches s' c then update_at ss' f c else Inr c) = Inr c'"
    show "c' = c \<or> (\<not> matches s c \<and> \<not> matches s c')"
    proof (cases "matches s' c")
      case False
      with h show ?thesis by simp
    next
      case True
      with h have u: "update_at ss' f c = Inr c'" by simp
      have t: "tag c' = tag c" using u tagp by (rule update_at_tag)
      from True have "tag c = step_tag s'" by (rule matches_step_tag)
      with t diff have "\<not> matches s c" "\<not> matches s c'"
        by (auto dest: matches_step_tag)
      then show ?thesis by simp
    qed
  qed
  then have "filter (matches s) (children e') = filter (matches s) (children e)"
    by (rule filter_all2_same)
  then show ?thesis by simp
qed

lemma findall_update_other:
  assumes upd: "update_at (d # s' # ss') f e = Inr e'"
    and tagp: "\<And>n n'. f n = Inr n' \<Longrightarrow> tag n' = tag n"
    and diff: "step_tag s \<noteq> step_tag s'"
  shows "findall (d # s # ss) e' = findall (d # s # ss) e"
proof -
  have kids: "list_all2 (\<lambda>c c'. (if matches d c then update_at (s' # ss') f c else Inr c) = Inr c')
           (children e) (children e')"
    using upd by (rule update_at_children)
  have "list_all2 (\<lambda>c c'. matches d c' = matches d c \<and>
          (matches d c \<longrightarrow> findall (s # ss) c' = findall (s # ss) c)) (children e) (children e')"
    using kids
  proof (rule list_all2_mono)
    fix c c'
    assume h: "(if matches d c then update_at (s' # ss') f c else Inr c) = Inr c'"
    show "matches d c' = matches d c \<and> (matches d c \<longrightarrow> findall (s # ss) c' = findall (s # ss) c)"
    proof (cases "matches d c")
      case False
      with h show ?thesis by simp
    next
      case True
      with h have u: "update_at (s' # ss') f c = Inr c'" by simp
      have "s' # ss' \<noteq> []" by simp
      from update_at_shallow [OF this u] have "matches d c' = matches d c"
        by (intro matches_shallow) simp_all
      moreover have "findall (s # ss) c' = findall (s # ss) c"
        using u tagp diff by (rule findall_update_other_head)
      ultimately show ?thesis by simp
    qed
  qed
  then have "concat (map (findall (s # ss)) (filter (matches d) (children e'))) =
             concat (map (findall (s # ss)) (filter (matches d) (children e)))"
    by (rule concat_filter_same)
  then show ?thesis by simp
qed

lemma map_log_forget:
  "without_log (map_log h xs) = map_err (\<lambda>x. without_log (h x)) xs"
proof (induction xs)
  case Nil
  show ?case by simp
next
  case (Cons x xs)
  show ?case
  proof (cases "h x")
    case (Inl e)
    then show ?thesis by simp
  next
    case (Inr p)
    obtain y w where p: "p = (y, w)" by (cases p)
    show ?thesis
    proof (cases "map_log h xs")
      case (Inl e)
      with Cons.IH [symmetric] Inr p show ?thesis by simp
    next
      case (Inr q)
      obtain ys ws where "q = (ys, ws)" by (cases q)
      with Cons.IH [symmetric] Inr \<open>h x = Inr p\<close> p show ?thesis by simp
    qed
  qed
qed

lemma update_at_log_forget:
  "without_log (update_at_log ss f e) = update_at ss (\<lambda>n. without_log (f n)) e"
proof (induction ss arbitrary: e)
  case Nil
  show ?case by simp
next
  case (Cons s ss)
  have eq: "(\<lambda>c. without_log (if matches s c then update_at_log ss f c else Inr (c, [])))
      = (\<lambda>c. if matches s c then update_at ss (\<lambda>n. without_log (f n)) c else Inr c)"
    by (rule ext) (simp add: Cons.IH)
  have m: "without_log (map_log (\<lambda>c. if matches s c then update_at_log ss f c else Inr (c, [])) (children e))
      = map_err (\<lambda>c. if matches s c then update_at ss (\<lambda>n. without_log (f n)) c else Inr c) (children e)"
    unfolding map_log_forget eq ..
  show ?case
  proof (cases "map_log (\<lambda>c. if matches s c then update_at_log ss f c else Inr (c, [])) (children e)")
    case (Inl err)
    with m [symmetric] show ?thesis by simp
  next
    case (Inr q)
    obtain cs ws where "q = (cs, ws)" by (cases q)
    with m [symmetric] Inr show ?thesis by simp
  qed
qed

lemma update_at_log_Inr:
  assumes "update_at_log ss f e = Inr (e', w)"
  shows "update_at ss (\<lambda>n. without_log (f n)) e = Inr e'"
  using update_at_log_forget [of ss f e] assms by simp

lemma update_at_log_exists:
  assumes "update_at ss (\<lambda>n. without_log (f n)) e = Inr e'"
  shows "\<exists>w. update_at_log ss f e = Inr (e', w)"
proof (cases "update_at_log ss f e")
  case (Inl err)
  with update_at_log_forget [of ss f e] assms show ?thesis by simp
next
  case (Inr q)
  obtain e'' w where "q = (e'', w)" by (cases q)
  with update_at_log_forget [of ss f e] assms Inr show ?thesis by simp
qed

lemma map_log_fixed:
  "(\<And>x. x \<in> set xs \<Longrightarrow> h x = Inr (x, [])) \<Longrightarrow> map_log h xs = Inr (xs, [])"
  by (induction xs) auto

lemma update_at_log_fixed:
  "(\<And>n. n \<in> set (findall ss e) \<Longrightarrow> f n = Inr (n, [])) \<Longrightarrow> update_at_log ss f e = Inr (e, [])"
proof (induction ss arbitrary: e)
  case Nil
  then show ?case by simp
next
  case (Cons s ss)
  have "map_log (\<lambda>c. if matches s c then update_at_log ss f c else Inr (c, [])) (children e)
          = Inr (children e, [])"
  proof (rule map_log_fixed)
    fix c assume c: "c \<in> set (children e)"
    show "(if matches s c then update_at_log ss f c else Inr (c, [])) = Inr (c, [])"
    proof (cases "matches s c")
      case True
      have "update_at_log ss f c = Inr (c, [])"
      proof (rule Cons.IH)
        fix n assume "n \<in> set (findall ss c)"
        with c True have "n \<in> set (findall (s # ss) e)" by auto
        then show "f n = Inr (n, [])" by (rule Cons.prems)
      qed
      with True show ?thesis by simp
    qed simp
  qed
  then show ?case by simp
qed

subsection \<open>Attributes and children\<close>

lemma map_of_setitem:
  "map_of (setitem k v al) k' = (if k' = k then Some v else map_of al k')"
  by (induction al) auto

lemma setitem_idem: "setitem k v (setitem k v al) = setitem k v al"
  by (induction al) auto

lemma setitem_same: "map_of al k = Some v \<Longrightarrow> setitem k v al = al"
  by (induction al) (auto split: if_splits)

lemma find_put_child:
  "find (\<lambda>c. tag c = t) cs = Some lt \<Longrightarrow> tag lt' = t \<Longrightarrow>
     find (\<lambda>c. tag c = t) (put_child lt' cs) = Some lt'"
  by (induction cs) (auto split: if_splits)

lemma put_child_idem: "put_child c' (put_child c' cs) = put_child c' cs"
  by (induction cs) auto

lemma put_child_same: "find (\<lambda>c. tag c = tag c') cs = Some c' \<Longrightarrow> put_child c' cs = cs"
  by (induction cs) (auto split: if_splits)

lemma find_Some_tag: "find (\<lambda>c. tag c = t) cs = Some c \<Longrightarrow> tag c = t"
  by (induction cs) (auto split: if_splits)

section \<open>The serial and graphics patches\<close>

declare findall.simps [simp del] update_at.simps [simp del] update_at_log.simps [simp del]

lemma list_all2_map_eq: "list_all2 (\<lambda>x y. y = g x) xs ys \<Longrightarrow> ys = map g xs"
  by (induction rule: list_all2_induct) auto

subsection \<open>The serial patch on one node and on the tree\<close>

lemma update_serial_source_tag:
  "update_serial_source la n = Inr n' \<Longrightarrow> tag n' = tag n"
  by (auto simp: update_serial_source_def set_attr_def split: if_splits option.splits)

lemma update_serial_source_idem:
  "update_serial_source la n = Inr n' \<Longrightarrow> update_serial_source la n' = Inr n'"
  by (auto simp: update_serial_source_def set_attr_def get_def map_of_setitem setitem_idem
      split: if_splits option.splits)

lemma update_serial_source_Some:
  "update_serial_source (Some a) n =
     Inr (if get n ''host'' = None then n
          else Element (tag n) (setitem ''host'' a (attrib n)) (el_text n) (children n) (tail n))"
  by (simp add: update_serial_source_def set_attr_def)

lemma update_serial_source_None:
  "update_serial_source None n = (if get n ''host'' = None then Inr n else Inl TypeError)"
  by (simp add: update_serial_source_def set_attr_def)

lemma update_serial_hosts_Some:
  assumes "serial_listen_addr_field md = Some a"
  shows "\<exists>doc'. update_serial_xml doc md = Inr doc' \<and>
      findall [Child ''devices'', ChildWhere ''serial'' ''type'' ''tcp'', Child ''source''] doc' =
        map (\<lambda>n. if get n ''host'' = None then n
                 else Element (tag n) (setitem ''host'' a (attrib n)) (el_text n) (children n) (tail n))
          (findall [Child ''devices'', ChildWhere ''serial'' ''type'' ''tcp'', Child ''source''] doc) \<and>
      findall [Child ''devices'', ChildWhere ''console'' ''type'' ''tcp'', Child ''source''] doc' =
        map (\<lambda>n. if get n ''host'' = None then n
                 else Element (tag n) (setitem ''host'' a (attrib n)) (el_text n) (children n) (tail n))
          (findall [Child ''devices'', ChildWhere ''console'' ''type'' ''tcp'', Child ''source''] doc)"
proof -
  let ?sp = "[Child ''devices'', ChildWhere ''serial'' ''type'' ''tcp'', Child ''source'']"
  let ?cp = "[Child ''devices'', ChildWhere ''console'' ''type'' ''tcp'', Child ''source'']"
  let ?f = "update_serial_source (Some a)"
  let ?h = "\<lambda>n. if get n ''host'' = None then n
                 else Element (tag n) (setitem ''host'' a (attrib n)) (el_text n) (children n) (tail n)"
  have f: "\<And>n. ?f n = Inr (?h n)" by (rule update_serial_source_Some)
  have tagp: "\<And>n n'. ?f n = Inr n' \<Longrightarrow> tag n' = tag n" by (rule update_serial_source_tag)
  have la: "serial_listen_addr md = Some a" using assms by (simp add: serial_listen_addr_def)
  obtain d1 where d1: "update_at ?sp ?f doc = Inr d1"
    using update_at_total [of ?sp doc ?f] f by blast
  obtain d2 where d2: "update_at ?cp ?f d1 = Inr d2"
    using update_at_total [of ?cp d1 ?f] f by blast
  have res: "update_serial_xml doc md = Inr d2"
    using d1 d2 la by (simp add: update_serial_xml_def and_then_def)
  have "list_all2 (\<lambda>n n'. ?f n = Inr n') (findall ?sp doc) (findall ?sp d1)"
    using d1 tagp by (rule update_at_findall) auto
  then have "list_all2 (\<lambda>n n'. n' = ?h n) (findall ?sp doc) (findall ?sp d1)"
    by (rule list_all2_mono) (simp add: f)
  then have s1: "findall ?sp d1 = map ?h (findall ?sp doc)" by (rule list_all2_map_eq)
  have s2: "findall ?sp d2 = findall ?sp d1"
    using d2 tagp by (rule findall_update_other) simp_all
  have "list_all2 (\<lambda>n n'. ?f n = Inr n') (findall ?cp d1) (findall ?cp d2)"
    using d2 tagp by (rule update_at_findall) auto
  then have "list_all2 (\<lambda>n n'. n' = ?h n) (findall ?cp d1) (findall ?cp d2)"
    by (rule list_all2_mono) (simp add: f)
  then have c2: "findall ?cp d2 = map ?h (findall ?cp d1)" by (rule list_all2_map_eq)
  have c1: "findall ?cp d1 = findall ?cp doc"
    using d1 tagp by (rule findall_update_other) simp_all
  from res s1 s2 c1 c2 show ?thesis by simp
qed

lemma update_serial_hosts_None:
  assumes "serial_listen_addr_field md = None"
  shows "update_serial_xml doc md =
     (if \<forall>n \<in> set (findall [Child ''devices'', ChildWhere ''serial'' ''type'' ''tcp'', Child ''source''] doc @
                     findall [Child ''devices'', ChildWhere ''console'' ''type'' ''tcp'', Child ''source''] doc).
           get n ''host'' = None
      then Inr doc else Inl TypeError)"
proof -
  let ?sp = "[Child ''devices'', ChildWhere ''serial'' ''type'' ''tcp'', Child ''source'']"
  let ?cp = "[Child ''devices'', ChildWhere ''console'' ''type'' ''tcp'', Child ''source'']"
  let ?f = "update_serial_source None"
  have la: "serial_listen_addr md = None" using assms by (simp add: serial_listen_addr_def)
  have fails: "update_at p ?f d = Inl TypeError"
    if "n \<in> set (findall p d)" "get n ''host'' \<noteq> None" for p d n
  proof -
    from that have "?f n = Inl TypeError" by (simp add: update_serial_source_None)
    with that(1) obtain err where e: "update_at p ?f d = Inl err"
      by (blast dest: update_at_fails)
    then obtain m where "?f m = Inl err" by (blast dest: update_at_Inl)
    then have "err = TypeError" by (simp add: update_serial_source_None split: if_splits)
    with e show ?thesis by simp
  qed
  have fixed: "update_at p ?f d = Inr d"
    if "\<forall>n \<in> set (findall p d). get n ''host'' = None" for p d
    using that by (intro update_at_fixed) (simp add: update_serial_source_None)
  show ?thesis
  proof (cases "\<forall>n \<in> set (findall ?sp doc). get n ''host'' = None")
    case False
    then obtain n where "n \<in> set (findall ?sp doc)" "get n ''host'' \<noteq> None" by blast
    then have "update_at ?sp ?f doc = Inl TypeError" by (rule fails)
    with False la show ?thesis by (auto simp: update_serial_xml_def and_then_def)
  next
    case sp: True
    then have s: "update_at ?sp ?f doc = Inr doc" by (rule fixed)
    show ?thesis
    proof (cases "\<forall>n \<in> set (findall ?cp doc). get n ''host'' = None")
      case True
      then have "update_at ?cp ?f doc = Inr doc" by (rule fixed)
      with s sp True la show ?thesis by (simp add: update_serial_xml_def and_then_def ball_Un)
    next
      case False
      then obtain n where "n \<in> set (findall ?cp doc)" "get n ''host'' \<noteq> None" by blast
      then have "update_at ?cp ?f doc = Inl TypeError" by (rule fails)
      with s False la show ?thesis by (simp add: update_serial_xml_def and_then_def ball_Un)
    qed
  qed
qed

subsection \<open>The graphics patch on one node\<close>


lemma update_graphics_dev_tag:
  "update_graphics_dev la n = Inr n' \<Longrightarrow> tag n' = tag n"
  by (auto simp: update_graphics_dev_def set_attr_def and_then_def Let_def
      split: if_splits option.splits sum.splits)



lemma update_graphics_dev_idem:
  assumes "update_graphics_dev la dev = Inr dev'"
  shows "update_graphics_dev la dev' = Inr dev'"
proof (cases "\<exists>t. get dev ''type'' = Some t \<and> (t = ''vnc'' \<or> t = ''spice'')")
  case False
  with assms have "dev' = dev"
    by (auto simp: update_graphics_dev_def Let_def split: option.splits if_splits)
  with assms show ?thesis by simp
next
  case True
  then obtain t where t: "get dev ''type'' = Some t" "t = ''vnc'' \<or> t = ''spice''" by blast
  show ?thesis
  proof (cases "find_child dev ''listen'' = None \<and> get dev ''listen'' = None")
    case True
    with assms t have "dev' = dev"
      by (auto simp: update_graphics_dev_def Let_def and_then_def split: option.splits if_splits)
    with assms show ?thesis by simp
  next
    case False
    with assms t obtain a where a: "getitem la t = Inr (Some a)"
      by (auto simp: update_graphics_dev_def Let_def and_then_def set_attr_def
          split: option.splits if_splits sum.splits)
    show ?thesis
    proof (cases "find_child dev ''listen''")
      case None
      with assms t a False show ?thesis
        by (auto simp: update_graphics_dev_def Let_def and_then_def set_attr_def get_def
              find_child_def map_of_setitem setitem_idem
            split: option.splits if_splits)
    next
      case (Some lt)
      then have tl: "tag lt = ''listen''"
        by (auto simp: find_child_def dest: find_Some_tag)
      define lt' where "lt' = Element (tag lt) (setitem ''address'' a (attrib lt)) (el_text lt)
         (children lt) (tail lt)"
      have tl': "tag lt' = ''listen''" using tl by (simp add: lt'_def)
      have fp: "find (\<lambda>c. tag c = ''listen'') (put_child lt' (children dev)) = Some lt'"
        using Some tl' by (auto simp: find_child_def intro: find_put_child)
      have again: "Element (tag lt') (setitem ''address'' a (attrib lt')) (el_text lt')
         (children lt') (tail lt') = lt'"
        by (simp add: lt'_def setitem_idem)
      from assms t a Some show ?thesis
        by (auto simp: update_graphics_dev_def Let_def and_then_def set_attr_def get_def
              find_child_def map_of_setitem setitem_idem fp again put_child_idem
              lt'_def [symmetric]
            split: option.splits if_splits)
    qed
  qed
qed

text \<open>
  C7 (as the code has it). With a serial listen address in the migration data, the serial
  patch succeeds and every \<^verbatim>\<open>source\<close> child of a TCP serial or console that has a
  \<^verbatim>\<open>host\<close> attribute gets the address as its host; the other \<^verbatim>\<open>source\<close> children are
  unchanged. Without a serial listen address the patch returns the descriptor unchanged
  only when no such \<^verbatim>\<open>source\<close> child has a \<^verbatim>\<open>host\<close> attribute; otherwise it raises
  \<^verbatim>\<open>TypeError\<close>, since \<^verbatim>\<open>set\<close> is called with \<^verbatim>\<open>None\<close>.
\<close>

theorem update_serial_xml_hosts:
  "(serial_listen_addr_field migrate_data = Some a \<longrightarrow>
      (\<exists>doc'. update_serial_xml xml_doc migrate_data = Inr doc' \<and>
         findall [Child ''devices'', ChildWhere ''serial'' ''type'' ''tcp'', Child ''source''] doc' =
           map (\<lambda>n. if get n ''host'' = None then n
                    else Element (tag n) (setitem ''host'' a (attrib n)) (el_text n) (children n) (tail n))
             (findall [Child ''devices'', ChildWhere ''serial'' ''type'' ''tcp'', Child ''source''] xml_doc) \<and>
         findall [Child ''devices'', ChildWhere ''console'' ''type'' ''tcp'', Child ''source''] doc' =
           map (\<lambda>n. if get n ''host'' = None then n
                    else Element (tag n) (setitem ''host'' a (attrib n)) (el_text n) (children n) (tail n))
             (findall [Child ''devices'', ChildWhere ''console'' ''type'' ''tcp'', Child ''source''] xml_doc))) \<and>
   (serial_listen_addr_field migrate_data = None \<longrightarrow>
      update_serial_xml xml_doc migrate_data =
        (if \<forall>n \<in> set (findall [Child ''devices'', ChildWhere ''serial'' ''type'' ''tcp'', Child ''source''] xml_doc @
                        findall [Child ''devices'', ChildWhere ''console'' ''type'' ''tcp'', Child ''source''] xml_doc).
              get n ''host'' = None
         then Inr xml_doc else Inl TypeError))"
  using update_serial_hosts_Some [of migrate_data a xml_doc]
    update_serial_hosts_None [of migrate_data xml_doc]
  by blast

lemma example_serial_sources:
  "findall [Child ''devices'', ChildWhere ''serial'' ''type'' ''tcp'', Child ''source''] example_xml_doc =
     [Element ''source'' [(''mode'', ''bind''), (''host'', ''10.0.0.1'')] None [] None]"
  by (simp add: findall.simps example_xml_doc_def example_disk_def get_def)

lemma example_console_sources:
  "findall [Child ''devices'', ChildWhere ''console'' ''type'' ''tcp'', Child ''source''] example_xml_doc =
     [Element ''source'' [(''mode'', ''bind''), (''host'', ''10.0.0.1'')] None [] None]"
  by (simp add: findall.simps example_xml_doc_def example_disk_def get_def)

theorem update_serial_xml_hosts_witness:
  "serial_listen_addr_field example_migrate_data = Some ''10.0.0.2'' \<and>
   (\<exists>doc'. update_serial_xml example_xml_doc example_migrate_data = Inr doc' \<and>
      findall [Child ''devices'', ChildWhere ''serial'' ''type'' ''tcp'', Child ''source''] doc' =
        [Element ''source'' [(''mode'', ''bind''), (''host'', ''10.0.0.2'')] None [] None] \<and>
      findall [Child ''devices'', ChildWhere ''console'' ''type'' ''tcp'', Child ''source''] doc' =
        [Element ''source'' [(''mode'', ''bind''), (''host'', ''10.0.0.2'')] None [] None]) \<and>
   serial_listen_addr_field unset_migrate_data = None \<and>
   update_serial_xml example_xml_doc unset_migrate_data = Inl TypeError"
proof -
  have a: "serial_listen_addr_field example_migrate_data = Some ''10.0.0.2''"
    by (simp add: example_migrate_data_def)
  have n: "serial_listen_addr_field unset_migrate_data = None"
    by (simp add: unset_migrate_data_def)
  from a n update_serial_xml_hosts [of example_migrate_data "''10.0.0.2''" example_xml_doc]
    update_serial_xml_hosts [of unset_migrate_data "''10.0.0.2''" example_xml_doc]
  show ?thesis
    by (simp add: example_serial_sources example_console_sources get_def)
qed

text \<open>
  The claim C7 as stated fails: the example descriptor has a TCP serial port whose source
  has a host, the migration data sets no serial listen address, and the patch raises
  instead of leaving the node unmodified.
\<close>

theorem update_serial_xml_unset_counterexample:
  "findall [Child ''devices'', ChildWhere ''serial'' ''type'' ''tcp'', Child ''source''] example_xml_doc =
     [Element ''source'' [(''mode'', ''bind''), (''host'', ''10.0.0.1'')] None [] None] \<and>
   serial_listen_addr unset_migrate_data = None \<and>
   update_serial_xml example_xml_doc unset_migrate_data = Inl TypeError"
  by (simp add: example_serial_sources)
    (simp add: update_serial_xml_def serial_listen_addr_def unset_migrate_data_def
      example_xml_doc_def example_disk_def update_at.simps update_serial_source_def
      set_attr_def get_def and_then_def)





section \<open>The volume patch\<close>

lemma without_log_Inr: "without_log r = Inr x \<longleftrightarrow> (\<exists>w. r = Inr (x, w))"
  by (cases r) auto

lemma update_disk_tag:
  "update_disk by_serial get_volume_config n = Inr (n', w) \<Longrightarrow> tag n' = tag n"
  by (auto simp: update_disk_def Let_def split: option.splits if_splits sum.splits prod.splits)

text \<open>
  What a loop with a log does to the nodes of its path: the nodes of the result are the
  results of the body, in document order, and the log is the concatenation of the body's
  logs.
\<close>

lemma list_all2_two:
  "list_all2 Q [a, b] rs \<Longrightarrow> \<exists>r1 r2. rs = [r1, r2] \<and> Q a r1 \<and> Q b r2"
  by (auto simp: list_all2_Cons1)

lemma map_log_pairs:
  "map_log h xs = Inr (ys, w) \<Longrightarrow>
     \<exists>ps. map fst ps = ys \<and> concat (map snd ps) = w \<and> list_all2 (\<lambda>x p. h x = Inr p) xs ps"
proof (induction xs arbitrary: ys w)
  case Nil
  then show ?case by simp
next
  case (Cons x xs)
  from Cons.prems obtain y wy ys' ws' where hx: "h x = Inr (y, wy)"
    and rest: "map_log h xs = Inr (ys', ws')" and ys: "ys = y # ys'" and w: "w = wy @ ws'"
    by (auto split: sum.splits prod.splits)
  from Cons.IH [OF rest] obtain ps where
    ps: "map fst ps = ys'" "concat (map snd ps) = ws'" "list_all2 (\<lambda>x p. h x = Inr p) xs ps"
    by blast
  have "map fst ((y, wy) # ps) = ys \<and> concat (map snd ((y, wy) # ps)) = w \<and>
        list_all2 (\<lambda>x p. h x = Inr p) (x # xs) ((y, wy) # ps)"
    using ps hx ys w by simp
  then show ?case by blast
qed

lemma concat_filter_pairs:
  assumes "list_all2 (\<lambda>c p.
      (P c \<longrightarrow> P (fst p) \<and>
         (\<exists>rs. map fst rs = g (fst p) \<and> concat (map snd rs) = snd p \<and> list_all2 R (g c) rs)) \<and>
      (\<not> P c \<longrightarrow> \<not> P (fst p) \<and> snd p = [])) xs ps"
  shows "\<exists>rs. map fst rs = concat (map g (filter P (map fst ps))) \<and>
      concat (map snd rs) = concat (map snd ps) \<and>
      list_all2 R (concat (map g (filter P xs))) rs"
  using assms
proof (induction rule: list_all2_induct)
  case Nil
  show ?case by simp
next
  case (Cons x xs p ps)
  from Cons.IH obtain rs' where rs':
    "map fst rs' = concat (map g (filter P (map fst ps)))"
    "concat (map snd rs') = concat (map snd ps)"
    "list_all2 R (concat (map g (filter P xs))) rs'" by blast
  show ?case
  proof (cases "P x")
    case True
    with Cons.hyps(1) obtain rs0 where p: "P (fst p)" and rs0:
      "map fst rs0 = g (fst p)" "concat (map snd rs0) = snd p" "list_all2 R (g x) rs0"
      by blast
    have "map fst (rs0 @ rs') = concat (map g (filter P (map fst (p # ps)))) \<and>
          concat (map snd (rs0 @ rs')) = concat (map snd (p # ps)) \<and>
          list_all2 R (concat (map g (filter P (x # xs)))) (rs0 @ rs')"
      using True p rs0 rs' by (simp add: list_all2_appendI)
    then show ?thesis by blast
  next
    case False
    with Cons.hyps(1) have "\<not> P (fst p)" "snd p = []" by auto
    with False rs' have "map fst rs' = concat (map g (filter P (map fst (p # ps)))) \<and>
          concat (map snd rs') = concat (map snd (p # ps)) \<and>
          list_all2 R (concat (map g (filter P (x # xs)))) rs'"
      by simp
    then show ?thesis by blast
  qed
qed

lemma update_at_log_findall:
  assumes "update_at_log ss f e = Inr (e', w)"
    and "\<And>n n' l. f n = Inr (n', l) \<Longrightarrow> tag n' = tag n"
    and "ss = [] \<or> (\<exists>t. last ss = Child t)"
  shows "\<exists>rs. map fst rs = findall ss e' \<and> concat (map snd rs) = w \<and>
           list_all2 (\<lambda>n r. f n = Inr r) (findall ss e) rs"
  using assms
proof (induction ss arbitrary: e e' w)
  case Nil
  then have "map fst [(e', w)] = findall [] e' \<and> concat (map snd [(e', w)]) = w \<and>
      list_all2 (\<lambda>n r. f n = Inr r) (findall [] e) [(e', w)]"
    by (simp add: findall.simps update_at_log.simps)
  then show ?case by blast
next
  case (Cons s ss)
  let ?h = "\<lambda>c. if matches s c then update_at_log ss f c else Inr (c, [])"
  from Cons.prems(1) obtain cs where ml: "map_log ?h (children e) = Inr (cs, w)"
    and e': "e' = Element (tag e) (attrib e) (el_text e) cs (tail e)"
    by (auto simp: update_at_log.simps split: sum.splits prod.splits)
  from map_log_pairs [OF ml] obtain ps where ps: "map fst ps = cs" "concat (map snd ps) = w"
    and all: "list_all2 (\<lambda>c p. ?h c = Inr p) (children e) ps" by blast
  have tagp: "\<And>n n'. without_log (f n) = Inr n' \<Longrightarrow> tag n' = tag n"
    using Cons.prems(2) by (auto simp: without_log_Inr)
  have last': "ss = [] \<or> (\<exists>t. last ss = Child t)"
    using Cons.prems(3) by (cases "ss = []") auto
  have "list_all2 (\<lambda>c p.
      (matches s c \<longrightarrow> matches s (fst p) \<and>
         (\<exists>rs. map fst rs = findall ss (fst p) \<and> concat (map snd rs) = snd p \<and>
            list_all2 (\<lambda>n r. f n = Inr r) (findall ss c) rs)) \<and>
      (\<not> matches s c \<longrightarrow> \<not> matches s (fst p) \<and> snd p = [])) (children e) ps"
    using all
  proof (rule list_all2_mono)
    fix c p
    assume h: "?h c = Inr p"
    show "(matches s c \<longrightarrow> matches s (fst p) \<and>
         (\<exists>rs. map fst rs = findall ss (fst p) \<and> concat (map snd rs) = snd p \<and>
            list_all2 (\<lambda>n r. f n = Inr r) (findall ss c) rs)) \<and>
      (\<not> matches s c \<longrightarrow> \<not> matches s (fst p) \<and> snd p = [])"
    proof (cases "matches s c")
      case False
      with h show ?thesis by auto
    next
      case True
      with h have u: "update_at_log ss f c = Inr (fst p, snd p)" by simp
      then have u': "update_at ss (\<lambda>n. without_log (f n)) c = Inr (fst p)"
        by (rule update_at_log_Inr)
      have m: "matches s (fst p)"
      proof (cases "ss = []")
        case True
        with Cons.prems(3) obtain t where "s = Child t" by auto
        moreover have "tag (fst p) = tag c" using u' tagp by (rule update_at_tag)
        ultimately show ?thesis using \<open>matches s c\<close> by simp
      next
        case False
        from update_at_shallow [OF False u'] have "matches s (fst p) = matches s c"
          by (intro matches_shallow) simp_all
        with \<open>matches s c\<close> show ?thesis by simp
      qed
      from Cons.IH [OF u Cons.prems(2) last'] m True show ?thesis by simp
    qed
  qed
  then have "\<exists>rs. map fst rs = concat (map (findall ss) (filter (matches s) (map fst ps))) \<and>
      concat (map snd rs) = concat (map snd ps) \<and>
      list_all2 (\<lambda>n r. f n = Inr r) (concat (map (findall ss) (filter (matches s) (children e)))) rs"
    by (rule concat_filter_pairs)
  with ps e' show ?case by (simp add: findall.simps)
qed

lemma fold_by_serial_Some:
  "fold (\<lambda>x m. m(serial x \<mapsto> x)) bs m0 s = Some b \<Longrightarrow>
     (b \<in> set bs \<and> serial b = s) \<or> m0 s = Some b"
proof (induction bs arbitrary: m0)
  case Nil
  then show ?case by simp
next
  case (Cons a bs)
  from Cons.prems have "fold (\<lambda>x m. m(serial x \<mapsto> x)) bs (m0(serial a \<mapsto> a)) s = Some b"
    by (simp only: fold_simps o_apply)
  from Cons.IH [OF this] show ?case
    by (auto split: if_splits)
qed

lemma bdm_info_by_serial_Some:
  "bdm_info_by_serial bs s = Some b \<Longrightarrow> b \<in> set bs \<and> serial b = s"
  using fold_by_serial_Some [of bs Map.empty s b] by (simp add: bdm_info_by_serial_def)

lemma update_disk_skip:
  assumes "findtext disk_dev ''serial'' = None \<or>
     (\<exists>s. findtext disk_dev ''serial'' = Some s \<and>
        (\<forall>b \<in> set migrate_bdm_info. serial b = s \<longrightarrow>
           connection_info b = None \<or> connection_info b = Some []))"
  shows "update_disk (bdm_info_by_serial migrate_bdm_info) get_volume_config disk_dev = Inr (disk_dev, [])"
proof (cases "findtext disk_dev ''serial''")
  case None
  then show ?thesis by (simp add: update_disk_def)
next
  case (Some s)
  show ?thesis
  proof (cases "bdm_info_by_serial migrate_bdm_info s")
    case None
    with Some show ?thesis by (simp add: update_disk_def)
  next
    case b: (Some b)
    then have "b \<in> set migrate_bdm_info \<and> serial b = s" by (rule bdm_info_by_serial_Some)
    with assms Some have "connection_info b = None \<or> connection_info b = Some []" by auto
    with Some b show ?thesis by (auto simp: update_disk_def)
  qed
qed

text \<open>
  C5. A disk node whose \<^verbatim>\<open>serial\<close> child is absent, or whose serial no block device
  mapping of the migration data has, or for whose serial the block device mappings have no
  connection info, is left as it is: no exception, and no call of the volume
  configuration callback. This holds for the body of the loop on such a disk, and for the
  patch of any descriptor, whatever its other disks are: when the patch succeeds, the
  disks of the result are, in order, the results of the loop body on the disks of the
  descriptor, the calls of the callback are those of the loop bodies in that order, and a
  disk of this kind is unchanged and contributes no call. A descriptor in which every
  disk is of this kind is returned unchanged with no call at all.
\<close>

theorem update_volume_xml_skips:
  "((findtext disk_dev ''serial'' = None \<or>
      (\<exists>s. findtext disk_dev ''serial'' = Some s \<and>
         (\<forall>b \<in> set (bdms migrate_data). serial b = s \<longrightarrow>
            connection_info b = None \<or> connection_info b = Some []))) \<longrightarrow>
    update_disk (bdm_info_by_serial (bdms migrate_data)) get_volume_config disk_dev =
      Inr (disk_dev, [])) \<and>
   (update_volume_xml xml_doc migrate_data get_volume_config = Inr (patched, calls) \<longrightarrow>
      (\<exists>results.
         map fst results = findall [Child ''devices'', Child ''disk''] patched \<and>
         concat (map snd results) = calls \<and>
         list_all2
           (\<lambda>disk_dev result.
              update_disk (bdm_info_by_serial (bdms migrate_data)) get_volume_config disk_dev =
                Inr result \<and>
              ((findtext disk_dev ''serial'' = None \<or>
                (\<exists>s. findtext disk_dev ''serial'' = Some s \<and>
                   (\<forall>b \<in> set (bdms migrate_data). serial b = s \<longrightarrow>
                      connection_info b = None \<or> connection_info b = Some []))) \<longrightarrow>
               result = (disk_dev, [])))
           (findall [Child ''devices'', Child ''disk''] xml_doc) results)) \<and>
   ((\<forall>disk_dev \<in> set (findall [Child ''devices'', Child ''disk''] xml_doc).
       findtext disk_dev ''serial'' = None \<or>
       (\<exists>s. findtext disk_dev ''serial'' = Some s \<and>
          (\<forall>b \<in> set (bdms migrate_data). serial b = s \<longrightarrow>
             connection_info b = None \<or> connection_info b = Some []))) \<longrightarrow>
    update_volume_xml xml_doc migrate_data get_volume_config = Inr (xml_doc, []))"
proof (intro conjI impI)
  assume "findtext disk_dev ''serial'' = None \<or>
      (\<exists>s. findtext disk_dev ''serial'' = Some s \<and>
         (\<forall>b \<in> set (bdms migrate_data). serial b = s \<longrightarrow>
            connection_info b = None \<or> connection_info b = Some []))"
  then show "update_disk (bdm_info_by_serial (bdms migrate_data)) get_volume_config disk_dev =
      Inr (disk_dev, [])"
    by (rule update_disk_skip)
next
  let ?u = "update_disk (bdm_info_by_serial (bdms migrate_data)) get_volume_config"
  assume "update_volume_xml xml_doc migrate_data get_volume_config = Inr (patched, calls)"
  then have "update_at_log [Child ''devices'', Child ''disk''] ?u xml_doc = Inr (patched, calls)"
    by (simp add: update_volume_xml_def)
  then have "\<exists>rs. map fst rs = findall [Child ''devices'', Child ''disk''] patched \<and>
      concat (map snd rs) = calls \<and>
      list_all2 (\<lambda>n r. ?u n = Inr r) (findall [Child ''devices'', Child ''disk''] xml_doc) rs"
    by (rule update_at_log_findall) (auto dest: update_disk_tag)
  then obtain rs where rs: "map fst rs = findall [Child ''devices'', Child ''disk''] patched"
    "concat (map snd rs) = calls"
    and all: "list_all2 (\<lambda>n r. ?u n = Inr r) (findall [Child ''devices'', Child ''disk''] xml_doc) rs"
    by blast
  have "list_all2
           (\<lambda>disk_dev result.
              ?u disk_dev = Inr result \<and>
              ((findtext disk_dev ''serial'' = None \<or>
                (\<exists>s. findtext disk_dev ''serial'' = Some s \<and>
                   (\<forall>b \<in> set (bdms migrate_data). serial b = s \<longrightarrow>
                      connection_info b = None \<or> connection_info b = Some []))) \<longrightarrow>
               result = (disk_dev, [])))
           (findall [Child ''devices'', Child ''disk''] xml_doc) rs"
    using all
  proof (rule list_all2_mono)
    fix n r assume u: "?u n = Inr r"
    show "?u n = Inr r \<and>
              ((findtext n ''serial'' = None \<or>
                (\<exists>s. findtext n ''serial'' = Some s \<and>
                   (\<forall>b \<in> set (bdms migrate_data). serial b = s \<longrightarrow>
                      connection_info b = None \<or> connection_info b = Some []))) \<longrightarrow>
               r = (n, []))"
    proof (intro conjI impI)
      show "?u n = Inr r" by (rule u)
      assume "findtext n ''serial'' = None \<or>
                (\<exists>s. findtext n ''serial'' = Some s \<and>
                   (\<forall>b \<in> set (bdms migrate_data). serial b = s \<longrightarrow>
                      connection_info b = None \<or> connection_info b = Some []))"
      then have "?u n = Inr (n, [])" by (rule update_disk_skip)
      with u show "r = (n, [])" by simp
    qed
  qed
  with rs show "\<exists>results.
         map fst results = findall [Child ''devices'', Child ''disk''] patched \<and>
         concat (map snd results) = calls \<and>
         list_all2
           (\<lambda>disk_dev result.
              ?u disk_dev = Inr result \<and>
              ((findtext disk_dev ''serial'' = None \<or>
                (\<exists>s. findtext disk_dev ''serial'' = Some s \<and>
                   (\<forall>b \<in> set (bdms migrate_data). serial b = s \<longrightarrow>
                      connection_info b = None \<or> connection_info b = Some []))) \<longrightarrow>
               result = (disk_dev, [])))
           (findall [Child ''devices'', Child ''disk''] xml_doc) results"
    by blast
next
  assume all: "\<forall>disk_dev \<in> set (findall [Child ''devices'', Child ''disk''] xml_doc).
       findtext disk_dev ''serial'' = None \<or>
       (\<exists>s. findtext disk_dev ''serial'' = Some s \<and>
          (\<forall>b \<in> set (bdms migrate_data). serial b = s \<longrightarrow>
             connection_info b = None \<or> connection_info b = Some []))"
  have "update_at_log [Child ''devices'', Child ''disk'']
          (update_disk (bdm_info_by_serial (bdms migrate_data)) get_volume_config) xml_doc =
        Inr (xml_doc, [])"
  proof (rule update_at_log_fixed)
    fix n assume "n \<in> set (findall [Child ''devices'', Child ''disk''] xml_doc)"
    with all show "update_disk (bdm_info_by_serial (bdms migrate_data)) get_volume_config n = Inr (n, [])"
      by (intro update_disk_skip) blast
  qed
  then show "update_volume_xml xml_doc migrate_data get_volume_config = Inr (xml_doc, [])"
    by (simp add: update_volume_xml_def)
qed

theorem update_volume_xml_skips_witness:
  "findall [Child ''devices'', Child ''disk''] (example_mixed_doc example_disk) =
     [example_disk, example_other_disk] \<and>
   findtext example_other_disk ''serial'' = Some ''0000beef'' \<and>
   map serial (bdms example_migrate_data) = [''58a84f6d''] \<and>
   update_disk (bdm_info_by_serial (bdms example_migrate_data)) (\<lambda>ci di. Inr example_disk_conf)
      example_other_disk = Inr (example_other_disk, []) \<and>
   update_volume_xml (example_mixed_doc example_disk) example_migrate_data
      (\<lambda>ci di. Inr example_disk_conf) =
     Inr (example_mixed_doc example_disk_merged,
          [([(''driver_volume_type'', ''iscsi'')],
            [(''dev'', ''vdb''), (''bus'', ''virtio''), (''type'', ''disk'')])]) \<and>
   (\<exists>results.
      map fst results = [example_disk_merged, example_other_disk] \<and>
      concat (map snd results) =
        [([(''driver_volume_type'', ''iscsi'')],
          [(''dev'', ''vdb''), (''bus'', ''virtio''), (''type'', ''disk'')])] \<and>
      results ! 1 = (example_other_disk, [])) \<and>
   bdms unset_migrate_data = [] \<and>
   update_volume_xml example_xml_doc unset_migrate_data (\<lambda>ci di. Inl (ProviderError ''unreachable''))
      = Inr (example_xml_doc, [])"
proof -
  let ?dp = "[Child ''devices'', Child ''disk'']"
  let ?call = "([(''driver_volume_type'', ''iscsi'')],
          [(''dev'', ''vdb''), (''bus'', ''virtio''), (''type'', ''disk'')])"
  have d2: "findall ?dp (example_mixed_doc example_disk) = [example_disk, example_other_disk]"
    by (simp add: findall.simps example_mixed_doc_def example_disk_def example_other_disk_def)
  have d2': "findall ?dp (example_mixed_doc example_disk_merged) = [example_disk_merged, example_other_disk]"
    by (simp add: findall.simps example_mixed_doc_def example_disk_merged_def example_other_disk_def)
  have so: "findtext example_other_disk ''serial'' = Some ''0000beef''"
    by (simp add: findtext_def find_child_def example_other_disk_def)
  have bs: "map serial (bdms example_migrate_data) = [''58a84f6d'']"
    by (simp add: example_migrate_data_def)
  have skip: "findtext example_other_disk ''serial'' = None \<or>
      (\<exists>s. findtext example_other_disk ''serial'' = Some s \<and>
         (\<forall>b \<in> set (bdms example_migrate_data). serial b = s \<longrightarrow>
            connection_info b = None \<or> connection_info b = Some []))"
    by (simp add: so example_migrate_data_def)
  have run: "update_volume_xml (example_mixed_doc example_disk) example_migrate_data
      (\<lambda>ci di. Inr example_disk_conf) = Inr (example_mixed_doc example_disk_merged, [?call])"
    by (simp add: update_volume_xml_def update_at_log.simps update_disk_def bdm_info_by_serial_def
        findtext_def find_child_def clear_tail_def insert_at_def remove_at_def
        example_mixed_doc_def example_disk_def example_disk_conf_def example_other_disk_def
        example_disk_merged_def example_migrate_data_def)
  note mixed = update_volume_xml_skips [of example_other_disk example_migrate_data
      "\<lambda>ci di. Inr example_disk_conf" "example_mixed_doc example_disk"
      "example_mixed_doc example_disk_merged" "[?call]"]
  from mixed skip have one: "update_disk (bdm_info_by_serial (bdms example_migrate_data))
      (\<lambda>ci di. Inr example_disk_conf) example_other_disk = Inr (example_other_disk, [])"
    by blast
  from mixed run obtain results where
    r: "map fst results = findall ?dp (example_mixed_doc example_disk_merged)"
      "concat (map snd results) = [?call]"
    and all: "list_all2
           (\<lambda>disk_dev result.
              update_disk (bdm_info_by_serial (bdms example_migrate_data))
                (\<lambda>ci di. Inr example_disk_conf) disk_dev = Inr result \<and>
              ((findtext disk_dev ''serial'' = None \<or>
                (\<exists>s. findtext disk_dev ''serial'' = Some s \<and>
                   (\<forall>b \<in> set (bdms example_migrate_data). serial b = s \<longrightarrow>
                      connection_info b = None \<or> connection_info b = Some []))) \<longrightarrow>
               result = (disk_dev, [])))
           (findall ?dp (example_mixed_doc example_disk)) results"
    by blast
  from all d2 have "list_all2
           (\<lambda>disk_dev result.
              update_disk (bdm_info_by_serial (bdms example_migrate_data))
                (\<lambda>ci di. Inr example_disk_conf) disk_dev = Inr result \<and>
              ((findtext disk_dev ''serial'' = None \<or>
                (\<exists>s. findtext disk_dev ''serial'' = Some s \<and>
                   (\<forall>b \<in> set (bdms example_migrate_data). serial b = s \<longrightarrow>
                      connection_info b = None \<or> connection_info b = Some []))) \<longrightarrow>
               result = (disk_dev, [])))
           [example_disk, example_other_disk] results"
    by simp
  from list_all2_two [OF this] obtain r1 r2 where rr: "results = [r1, r2]"
    and "(findtext example_other_disk ''serial'' = None \<or>
                (\<exists>s. findtext example_other_disk ''serial'' = Some s \<and>
                   (\<forall>b \<in> set (bdms example_migrate_data). serial b = s \<longrightarrow>
                      connection_info b = None \<or> connection_info b = Some []))) \<longrightarrow>
               r2 = (example_other_disk, [])"
    by blast
  with skip have "r2 = (example_other_disk, [])" by blast
  with rr have nth: "results ! 1 = (example_other_disk, [])" by simp
  have "map fst results = [example_disk_merged, example_other_disk] \<and>
      concat (map snd results) = [?call] \<and>
      results ! 1 = (example_other_disk, [])"
    using r nth d2' by simp
  then have ex: "\<exists>results.
      map fst results = [example_disk_merged, example_other_disk] \<and>
      concat (map snd results) = [?call] \<and>
      results ! 1 = (example_other_disk, [])" ..
  have d: "findall ?dp example_xml_doc = [example_disk]"
    by (simp add: findall.simps example_xml_doc_def example_disk_def)
  have s: "findtext example_disk ''serial'' = Some ''58a84f6d''"
    by (simp add: findtext_def find_child_def example_disk_def)
  have b: "bdms unset_migrate_data = []" by (simp add: unset_migrate_data_def)
  have h: "\<forall>disk_dev \<in> set (findall ?dp example_xml_doc).
       findtext disk_dev ''serial'' = None \<or>
       (\<exists>s. findtext disk_dev ''serial'' = Some s \<and>
          (\<forall>b \<in> set (bdms unset_migrate_data). serial b = s \<longrightarrow>
             connection_info b = None \<or> connection_info b = Some []))"
    by (simp add: d s b)
  from h update_volume_xml_skips [of example_disk unset_migrate_data
      "\<lambda>ci di. Inl (ProviderError ''unreachable'')" example_xml_doc]
  have all_skipped: "update_volume_xml example_xml_doc unset_migrate_data
      (\<lambda>ci di. Inl (ProviderError ''unreachable'')) = Inr (example_xml_doc, [])"
    by blast
  from d2 so bs one run ex b all_skipped show ?thesis by blast
qed

subsection \<open>The replacement loop\<close>

lemma insert_remove_at:
  "length pre = cnt \<Longrightarrow> insert_at cnt x (remove_at cnt (pre @ c # rest)) = pre @ x # rest"
  by (simp add: insert_at_def remove_at_def)

lemma replace_items_prefix:
  "length pre = cnt \<Longrightarrow>
   replace_items cnt rest (pre @ rest) ds =
     (case replace_items 0 rest rest ds of
        Inl e \<Rightarrow> Inl e
      | Inr (items, left) \<Rightarrow> Inr (pre @ items, left))"
proof (induction rest arbitrary: cnt pre ds)
  case Nil
  then show ?case by simp
next
  case (Cons c rest)
  have step: "replace_items (Suc n) rest (p @ x # rest) ds' =
      (case replace_items 0 rest rest ds' of
         Inl e \<Rightarrow> Inl e
       | Inr (items, left) \<Rightarrow> Inr (p @ x # items, left))" if "length p = n" for n p x ds'
  proof -
    from that have "length (p @ [x]) = Suc n" by simp
    from Cons.IH [OF this, of ds'] show ?thesis by (simp split: sum.splits prod.splits)
  qed
  have ins: "insert_at cnt x (remove_at cnt (pre @ c # rest)) = pre @ x # rest" for x
    using Cons.prems by (rule insert_remove_at)
  have ins0: "insert_at 0 x (remove_at 0 (c # rest)) = x # rest" for x
    by (simp add: insert_at_def remove_at_def)
  show ?case
  proof (cases "filter (\<lambda>d. tag d = tag c) ds")
    case Nil
    with step [OF Cons.prems, of c ds] step [of "[]" 0 c ds] show ?thesis
      by (simp split: sum.splits prod.splits)
  next
    case (Cons d more)
    show ?thesis
    proof (cases more)
      case Nil
      with Cons step [OF Cons.prems, of "clear_tail d" "filter (\<lambda>d. tag d \<noteq> tag c) ds"]
        step [of "[]" 0 "clear_tail d" "filter (\<lambda>d. tag d \<noteq> tag c) ds"] ins ins0
      show ?thesis
        by (simp split: sum.splits prod.splits)
    next
      case (Cons d2 others)
      with \<open>filter (\<lambda>d. tag d = tag c) ds = d # more\<close> show ?thesis by simp
    qed
  qed
qed

lemma replace_items_Cons:
  "replace_items 0 (c # cs) (c # cs) ds =
     (case filter (\<lambda>d. tag d = tag c) ds of
        [] \<Rightarrow>
          (case replace_items 0 cs cs ds of
             Inl e \<Rightarrow> Inl e
           | Inr (items, left) \<Rightarrow> Inr (c # items, left))
      | [d] \<Rightarrow>
          (case replace_items 0 cs cs (filter (\<lambda>d. tag d \<noteq> tag c) ds) of
             Inl e \<Rightarrow> Inl e
           | Inr (items, left) \<Rightarrow> Inr (clear_tail d # items, left))
      | d # d2 # others \<Rightarrow> Inl ValueError)"
proof -
  have a: "replace_items (Suc 0) cs (x # cs) ds' =
      (case replace_items 0 cs cs ds' of
         Inl e \<Rightarrow> Inl e
       | Inr (items, left) \<Rightarrow> Inr (x # items, left))" for x ds'
    using replace_items_prefix [of "[x]" "Suc 0" cs ds'] by (simp split: sum.splits prod.splits)
  show ?thesis
    by (simp add: a insert_at_def remove_at_def split: list.splits)
qed

lemma replace_items_Nil: "replace_items 0 [] [] ds = Inr ([], ds)"
  by simp

lemma filter_tag_distinct:
  "distinct (map tag ds) \<Longrightarrow>
     filter (\<lambda>d. tag d = t) ds = [] \<or> (\<exists>d. filter (\<lambda>d. tag d = t) ds = [d])"
  by (induction ds) (auto simp: filter_empty_conv image_iff)

lemma find_filter_single: "filter P xs = [x] \<Longrightarrow> find P xs = Some x"
  by (induction xs) (auto split: if_splits)

lemma find_filter_none: "filter P xs = [] \<Longrightarrow> find P xs = None"
  by (induction xs) (auto split: if_splits)

lemma find_filter_other:
  "(\<And>x. x \<in> set xs \<Longrightarrow> P x \<Longrightarrow> Q x) \<Longrightarrow> find P (filter Q xs) = find P xs"
  by (induction xs) auto

lemma tag_clear_tail [simp]: "tag (clear_tail d) = tag d"
  by (simp add: clear_tail_def)

lemma clear_tail_idem [simp]: "clear_tail (clear_tail d) = clear_tail d"
  by (simp add: clear_tail_def)

lemma el_text_clear_tail [simp]: "el_text (clear_tail d) = el_text d"
  by (simp add: clear_tail_def)

text \<open>
  C9 (as the code has it). The replacement loop does not skip the child after a replaced
  one: the destination's child is inserted at the index from which the source child was
  removed, so the enumeration stays aligned. When the tags of the destination fragment's
  children are pairwise distinct, and so are those of the disk's children, the loop
  replaces every child whose tag occurs in the fragment by the fragment's child with that
  tag (its tail cleared), leaves every other child in place, and leaves in the fragment
  exactly the children whose tag the disk does not have. In particular two consecutive
  children with matching tags are both replaced.
\<close>

theorem replace_items_replaces_in_place:
  assumes "distinct (map tag ds)" and "distinct (map tag cs)"
  shows "replace_items 0 cs cs ds =
     Inr (map (\<lambda>c. case find (\<lambda>d. tag d = tag c) ds of None \<Rightarrow> c | Some d \<Rightarrow> clear_tail d) cs,
          filter (\<lambda>d. tag d \<notin> tag ` set cs) ds)"
  using assms
proof (induction cs arbitrary: ds)
  case Nil
  then show ?case by simp
next
  case (Cons c cs)
  from Cons.prems have dcs: "distinct (map tag cs)" and fresh: "tag c \<notin> tag ` set cs" by auto
  from filter_tag_distinct [OF Cons.prems(1), of "tag c"]
  show ?case
  proof
    assume none: "filter (\<lambda>d. tag d = tag c) ds = []"
    then have f: "find (\<lambda>d. tag d = tag c) ds = None" by (rule find_filter_none)
    from none have "\<And>d. d \<in> set ds \<Longrightarrow> tag d \<noteq> tag c" by (auto simp: filter_empty_conv)
    then have l: "filter (\<lambda>d. tag d \<notin> tag ` set (c # cs)) ds = filter (\<lambda>d. tag d \<notin> tag ` set cs) ds"
      by (intro filter_cong) auto
    show ?thesis
      unfolding replace_items_Cons none l
      by (simp add: Cons.IH [OF Cons.prems(1) dcs] f)
  next
    assume "\<exists>d. filter (\<lambda>d. tag d = tag c) ds = [d]"
    then obtain d where one: "filter (\<lambda>d. tag d = tag c) ds = [d]" ..
    then have f: "find (\<lambda>d. tag d = tag c) ds = Some d" by (rule find_filter_single)
    let ?ds' = "filter (\<lambda>d. tag d \<noteq> tag c) ds"
    have dds': "distinct (map tag ?ds')" using Cons.prems(1) by (simp add: distinct_map_filter)
    have m: "map (\<lambda>c'. case find (\<lambda>d. tag d = tag c') ?ds' of None \<Rightarrow> c' | Some d \<Rightarrow> clear_tail d) cs
           = map (\<lambda>c'. case find (\<lambda>d. tag d = tag c') ds of None \<Rightarrow> c' | Some d \<Rightarrow> clear_tail d) cs"
    proof (rule map_cong [OF refl])
      fix c' assume "c' \<in> set cs"
      with fresh have "tag c' \<noteq> tag c" by (auto simp: image_iff)
      then have "find (\<lambda>d. tag d = tag c') ?ds' = find (\<lambda>d. tag d = tag c') ds"
        by (intro find_filter_other) auto
      then show "(case find (\<lambda>d. tag d = tag c') ?ds' of None \<Rightarrow> c' | Some d \<Rightarrow> clear_tail d)
           = (case find (\<lambda>d. tag d = tag c') ds of None \<Rightarrow> c' | Some d \<Rightarrow> clear_tail d)"
        by simp
    qed
    have l: "filter (\<lambda>d. tag d \<notin> tag ` set cs) ?ds' = filter (\<lambda>d. tag d \<notin> tag ` set (c # cs)) ds"
      by (auto intro: filter_cong)
    show ?thesis
      unfolding replace_items_Cons one
      by (simp add: Cons.IH [OF dds' dcs] f m l del: filter_filter)
  qed
qed

theorem replace_items_replaces_in_place_witness:
  "distinct (map tag (children example_disk_conf)) \<and> distinct (map tag (children example_disk)) \<and>
   replace_items 0 (children example_disk) (children example_disk) (children example_disk_conf) =
     Inr ([Element ''driver'' [(''name'', ''qemu''), (''type'', ''raw''), (''cache'', ''none'')] None [] None,
           Element ''source'' [(''dev'', ''/dev/lun-Z'')] None [] None,
           Element ''target'' [(''bus'', ''virtio''), (''dev'', ''vdb'')] None [] None,
           Element ''serial'' [] (Some ''58a84f6d'') [] None,
           Element ''address'' [(''type'', ''pci''), (''slot'', ''0x04'')] None [] None], [])"
proof -
  have 1: "distinct (map tag (children example_disk_conf))"
    by (simp add: example_disk_conf_def)
  have 2: "distinct (map tag (children example_disk))"
    by (simp add: example_disk_def)
  from replace_items_replaces_in_place [OF 1 2] 1 2 show ?thesis
    by (simp add: example_disk_def example_disk_conf_def clear_tail_def)
qed

text \<open>
  The claim C9 as stated fails: the first two children of the example disk, \<^verbatim>\<open>driver\<close>
  and \<^verbatim>\<open>source\<close>, both have a child with their tag in the destination's disk element,
  and the loop replaces both; the second child of the result is the destination's
  \<^verbatim>\<open>source\<close>, not the disk's.
\<close>

theorem replace_items_skip_counterexample:
  "map tag (children example_disk) = [''driver'', ''source'', ''target'', ''serial'', ''address''] \<and>
   map tag (children example_disk_conf) = [''driver'', ''source'', ''target'', ''serial''] \<and>
   replace_items 0 (children example_disk) (children example_disk) (children example_disk_conf) =
     Inr ([Element ''driver'' [(''name'', ''qemu''), (''type'', ''raw''), (''cache'', ''none'')] None [] None,
           Element ''source'' [(''dev'', ''/dev/lun-Z'')] None [] None,
           Element ''target'' [(''bus'', ''virtio''), (''dev'', ''vdb'')] None [] None,
           Element ''serial'' [] (Some ''58a84f6d'') [] None,
           Element ''address'' [(''type'', ''pci''), (''slot'', ''0x04'')] None [] None], []) \<and>
   children example_disk ! 1 = Element ''source'' [(''dev'', ''/dev/lun-X'')] None [] None"
  by (simp add: example_disk_def example_disk_conf_def clear_tail_def insert_at_def remove_at_def)

subsection \<open>The merged children\<close>

lemma find_append_cases:
  "find P (xs @ ys) = (case find P xs of None \<Rightarrow> find P ys | Some x \<Rightarrow> Some x)"
  by (induction xs) auto

lemma find_append_skip:
  "find P ys = None \<Longrightarrow> find P (xs @ ys @ zs) = find P (xs @ zs)"
  by (induction xs) (auto simp: find_append_cases)

lemma find_distinct_key:
  "distinct (map f ys) \<Longrightarrow> d \<in> set ys \<Longrightarrow> find (\<lambda>c. f c = f d) ys = Some d"
  by (induction ys) (auto simp: image_iff)

lemma replace_items_result:
  assumes "distinct (map tag ds)" and "replace_items 0 cs cs ds = Inr (items, left)"
  shows "map tag items = map tag cs \<and>
         left = filter (\<lambda>d. tag d \<notin> tag ` set cs) ds \<and>
         (\<forall>d \<in> set ds. tag d \<in> tag ` set cs \<longrightarrow>
            find (\<lambda>c. tag c = tag d) items = Some (clear_tail d))"
  using assms
proof (induction cs arbitrary: ds items left)
  case Nil
  then show ?case by simp
next
  case (Cons c cs)
  from filter_tag_distinct [OF Cons.prems(1), of "tag c"]
  show ?case
  proof
    assume none: "filter (\<lambda>d. tag d = tag c) ds = []"
    then have nc: "\<And>d. d \<in> set ds \<Longrightarrow> tag d \<noteq> tag c" by (auto simp: filter_empty_conv)
    from Cons.prems(2) none obtain items' where
      r: "replace_items 0 cs cs ds = Inr (items', left)" and i: "items = c # items'"
      unfolding replace_items_Cons by (auto split: sum.splits)
    note ih = Cons.IH [OF Cons.prems(1) r]
    have l: "filter (\<lambda>d. tag d \<notin> tag ` set (c # cs)) ds = filter (\<lambda>d. tag d \<notin> tag ` set cs) ds"
      using nc by (intro filter_cong) auto
    show ?thesis
    proof (intro conjI ballI impI)
      show "map tag items = map tag (c # cs)" using ih i by simp
      show "left = filter (\<lambda>d. tag d \<notin> tag ` set (c # cs)) ds" using ih l by simp
    next
      fix d assume d: "d \<in> set ds" "tag d \<in> tag ` set (c # cs)"
      with nc have "tag d \<noteq> tag c" "tag d \<in> tag ` set cs" by auto
      with ih d(1) i show "find (\<lambda>c. tag c = tag d) items = Some (clear_tail d)" by auto
    qed
  next
    assume "\<exists>d. filter (\<lambda>d. tag d = tag c) ds = [d]"
    then obtain d0 where one: "filter (\<lambda>d. tag d = tag c) ds = [d0]" ..
    then have "d0 \<in> set (filter (\<lambda>d. tag d = tag c) ds)" by simp
    then have d0: "d0 \<in> set ds" "tag d0 = tag c" by auto
    have only: "d = d0" if "d \<in> set ds" "tag d = tag c" for d
    proof -
      from that have "d \<in> set (filter (\<lambda>d. tag d = tag c) ds)" by simp
      with one show ?thesis by simp
    qed
    let ?ds' = "filter (\<lambda>d. tag d \<noteq> tag c) ds"
    have dds': "distinct (map tag ?ds')" using Cons.prems(1) by (simp add: distinct_map_filter)
    from Cons.prems(2) one obtain items' where
      r: "replace_items 0 cs cs ?ds' = Inr (items', left)" and i: "items = clear_tail d0 # items'"
      unfolding replace_items_Cons by (auto split: sum.splits)
    note ih = Cons.IH [OF dds' r]
    have l: "filter (\<lambda>d. tag d \<notin> tag ` set cs) ?ds' = filter (\<lambda>d. tag d \<notin> tag ` set (c # cs)) ds"
      by (auto intro: filter_cong)
    show ?thesis
    proof (intro conjI ballI impI)
      show "map tag items = map tag (c # cs)" using ih i d0 by simp
      show "left = filter (\<lambda>d. tag d \<notin> tag ` set (c # cs)) ds" using ih l by simp
    next
      fix d assume d: "d \<in> set ds" "tag d \<in> tag ` set (c # cs)"
      show "find (\<lambda>c. tag c = tag d) items = Some (clear_tail d)"
      proof (cases "tag d = tag c")
        case True
        with d(1) have "d = d0" by (rule only)
        with i show ?thesis by simp
      next
        case False
        with d have "d \<in> set ?ds'" "tag d \<in> tag ` set cs" by auto
        with ih have "find (\<lambda>c. tag c = tag d) items' = Some (clear_tail d)" by blast
        with False d0 i show ?thesis by simp
      qed
    qed
  qed
qed

lemma replace_items_saturated:
  assumes "distinct (map tag ds)"
    and "\<And>d. d \<in> set ds \<Longrightarrow> find (\<lambda>c. tag c = tag d) xs = Some (clear_tail d)"
  shows "replace_items 0 xs xs ds = Inr (xs, [])"
  using assms
proof (induction xs arbitrary: ds)
  case Nil
  have "ds = []"
  proof (rule ccontr)
    assume "ds \<noteq> []"
    then obtain d where "d \<in> set ds" by (cases ds) auto
    from Nil.prems(2) [OF this] show False by simp
  qed
  then show ?case by simp
next
  case (Cons x xs)
  from filter_tag_distinct [OF Cons.prems(1), of "tag x"]
  show ?case
  proof
    assume none: "filter (\<lambda>d. tag d = tag x) ds = []"
    then have nc: "\<And>d. d \<in> set ds \<Longrightarrow> tag d \<noteq> tag x" by (auto simp: filter_empty_conv)
    have "replace_items 0 xs xs ds = Inr (xs, [])"
    proof (rule Cons.IH [OF Cons.prems(1)])
      fix d assume d: "d \<in> set ds"
      from Cons.prems(2) [OF d] nc [OF d]
      show "find (\<lambda>c. tag c = tag d) xs = Some (clear_tail d)" by (simp split: if_splits)
    qed
    then show ?thesis unfolding replace_items_Cons none by simp
  next
    assume "\<exists>d. filter (\<lambda>d. tag d = tag x) ds = [d]"
    then obtain d0 where one: "filter (\<lambda>d. tag d = tag x) ds = [d0]" ..
    then have "d0 \<in> set (filter (\<lambda>d. tag d = tag x) ds)" by simp
    then have d0: "d0 \<in> set ds" "tag d0 = tag x" by auto
    from Cons.prems(2) [OF d0(1)] d0(2) have x: "x = clear_tail d0" by simp
    let ?ds' = "filter (\<lambda>d. tag d \<noteq> tag x) ds"
    have dds': "distinct (map tag ?ds')" using Cons.prems(1) by (simp add: distinct_map_filter)
    have "replace_items 0 xs xs ?ds' = Inr (xs, [])"
    proof (rule Cons.IH [OF dds'])
      fix d assume "d \<in> set ?ds'"
      then have d: "d \<in> set ds" "tag d \<noteq> tag x" by auto
      from Cons.prems(2) [OF d(1)] d(2)
      show "find (\<lambda>c. tag c = tag d) xs = Some (clear_tail d)" by (simp split: if_splits)
    qed
    then show ?thesis unfolding replace_items_Cons one using x by simp
  qed
qed

lemma insert_items_closed:
  "cnt \<le> length xs \<Longrightarrow>
     insert_items cnt left xs = take cnt xs @ rev (map clear_tail left) @ drop cnt xs"
proof (induction left arbitrary: xs)
  case Nil
  then show ?case by simp
next
  case (Cons d left)
  have "cnt \<le> length (insert_at cnt (clear_tail d) xs)"
    using Cons.prems by (simp add: insert_at_def)
  from Cons.IH [OF this] Cons.prems show ?case
    by (simp add: insert_at_def)
qed

lemma merged_saturated:
  assumes dist: "distinct (map tag ds)"
    and rep: "replace_items 0 cs cs ds = Inr (items, left)"
    and k: "k \<le> length cs"
    and d: "d \<in> set ds"
  shows "find (\<lambda>c. tag c = tag d) (insert_items k left items) = Some (clear_tail d)"
proof -
  from replace_items_result [OF dist rep]
  have tags: "map tag items = map tag cs"
    and left: "left = filter (\<lambda>d. tag d \<notin> tag ` set cs) ds"
    and found: "\<And>d. d \<in> set ds \<Longrightarrow> tag d \<in> tag ` set cs \<Longrightarrow>
            find (\<lambda>c. tag c = tag d) items = Some (clear_tail d)"
    by auto
  from tags have len: "length items = length cs" by (rule map_eq_imp_length_eq)
  from tags have tagset: "tag ` set items = tag ` set cs"
    by (metis list.set_map)
  have closed: "insert_items k left items = take k items @ rev (map clear_tail left) @ drop k items"
    using k len by (intro insert_items_closed) simp
  show ?thesis
  proof (cases "tag d \<in> tag ` set cs")
    case True
    have "\<forall>x \<in> set left. tag x \<noteq> tag d"
      using True left by auto
    then have mid: "find (\<lambda>c. tag c = tag d) (rev (map clear_tail left)) = None"
      by (simp add: find_None_iff)
    from mid have "find (\<lambda>c. tag c = tag d) (take k items @ rev (map clear_tail left) @ drop k items)
        = find (\<lambda>c. tag c = tag d) (take k items @ drop k items)"
      by (rule find_append_skip)
    with closed found [OF d True] show ?thesis by simp
  next
    case False
    with d left have dl: "d \<in> set left" by simp
    have dleft: "distinct (map tag left)" using dist left by (simp add: distinct_map_filter)
    have no: "\<And>y. y \<in> set items \<Longrightarrow> tag y \<noteq> tag d"
      using False tagset by (metis imageI)
    have "find (\<lambda>c. tag c = tag d) (take k items) = None"
      using no by (auto simp: find_None_iff dest: in_set_takeD)
    moreover have "find (\<lambda>c. tag c = tag (clear_tail d)) (rev (map clear_tail left)) = Some (clear_tail d)"
    proof (rule find_distinct_key)
      show "distinct (map tag (rev (map clear_tail left)))"
        using dleft by (simp add: rev_map [symmetric] comp_def)
      show "clear_tail d \<in> set (rev (map clear_tail left))" using dl by simp
    qed
    ultimately show ?thesis
      using closed by (simp add: find_append_cases)
  qed
qed

lemma update_disk_cases:
  assumes "update_disk by_serial get_volume_config n = Inr (n', w)"
  shows "n' = n \<or>
    (\<exists>s b ci xml_doc2 items left.
       findtext n ''serial'' = Some s \<and> by_serial s = Some b \<and>
       connection_info b = Some ci \<and> ci \<noteq> [] \<and>
       get_volume_config ci (as_disk_info b) = Inr xml_doc2 \<and>
       findtext xml_doc2 ''serial'' = Some s \<and> s \<noteq> [] \<and>
       replace_items 0 (children n) (children n) (children xml_doc2) = Inr (items, left) \<and>
       children n \<noteq> [] \<and>
       n' = Element (tag n) (attrib n) (el_text n)
              (insert_items (length (children n) - 1) left items) (tail n) \<and>
       w = [(ci, as_disk_info b)])"
  using assms
  by (auto simp: update_disk_def Let_def split: option.splits if_splits sum.splits prod.splits)

lemma update_disk_merge:
  assumes "findtext n ''serial'' = Some s" and "by_serial s = Some b"
    and "connection_info b = Some ci" and "ci \<noteq> []"
    and "get_volume_config ci (as_disk_info b) = Inr xml_doc2"
    and "findtext xml_doc2 ''serial'' = Some s" and "s \<noteq> []"
    and "replace_items 0 (children n) (children n) (children xml_doc2) = Inr (items, left)"
    and "children n \<noteq> []"
  shows "update_disk by_serial get_volume_config n =
     Inr (Element (tag n) (attrib n) (el_text n)
            (insert_items (length (children n) - 1) left items) (tail n),
          [(ci, as_disk_info b)])"
  using assms by (simp add: update_disk_def)

lemma findtext_find:
  "findtext e t = Some s \<Longrightarrow>
     \<exists>c. find (\<lambda>c. tag c = t) (children e) = Some c \<and>
         (case el_text c of None \<Rightarrow> [] | Some x \<Rightarrow> x) = s"
  by (auto simp: findtext_def find_child_def split: option.splits)

lemma find_Some_mem: "find P xs = Some x \<Longrightarrow> x \<in> set xs \<and> P x"
  by (induction xs) (auto split: if_splits)

lemma update_disk_idem:
  assumes frag: "\<And>ci di xml_doc2. get_volume_config ci di = Inr xml_doc2 \<Longrightarrow>
      distinct (map tag (children xml_doc2))"
    and upd: "update_disk by_serial get_volume_config n = Inr (n', w)"
  shows "update_disk by_serial get_volume_config n' = Inr (n', w)"
proof -
  from update_disk_cases [OF upd]
  show ?thesis
  proof
    assume "n' = n"
    with upd show ?thesis by simp
  next
    assume "\<exists>s b ci xml_doc2 items left.
       findtext n ''serial'' = Some s \<and> by_serial s = Some b \<and>
       connection_info b = Some ci \<and> ci \<noteq> [] \<and>
       get_volume_config ci (as_disk_info b) = Inr xml_doc2 \<and>
       findtext xml_doc2 ''serial'' = Some s \<and> s \<noteq> [] \<and>
       replace_items 0 (children n) (children n) (children xml_doc2) = Inr (items, left) \<and>
       children n \<noteq> [] \<and>
       n' = Element (tag n) (attrib n) (el_text n)
              (insert_items (length (children n) - 1) left items) (tail n) \<and>
       w = [(ci, as_disk_info b)]"
    then obtain s b ci xml_doc2 items left where
      b: "by_serial s = Some b" "connection_info b = Some ci" "ci \<noteq> []"
      and conf: "get_volume_config ci (as_disk_info b) = Inr xml_doc2"
      and sd: "findtext xml_doc2 ''serial'' = Some s" "s \<noteq> []"
      and rep: "replace_items 0 (children n) (children n) (children xml_doc2) = Inr (items, left)"
      and ne: "children n \<noteq> []"
      and n': "n' = Element (tag n) (attrib n) (el_text n)
              (insert_items (length (children n) - 1) left items) (tail n)"
      and w: "w = [(ci, as_disk_info b)]"
      by blast
    let ?final = "insert_items (length (children n) - 1) left items"
    have dist: "distinct (map tag (children xml_doc2))" using conf by (rule frag)
    have sat: "find (\<lambda>c. tag c = tag d) ?final = Some (clear_tail d)"
      if "d \<in> set (children xml_doc2)" for d
      using dist rep _ that by (rule merged_saturated) simp
    from findtext_find [OF sd(1)] obtain c where
      c: "find (\<lambda>c. tag c = ''serial'') (children xml_doc2) = Some c"
      and ct: "(case el_text c of None \<Rightarrow> [] | Some x \<Rightarrow> x) = s" by blast
    from find_Some_mem [OF c] have cm: "c \<in> set (children xml_doc2)" and ctag: "tag c = ''serial''"
      by auto
    from sat [OF cm] ctag have "find (\<lambda>c. tag c = ''serial'') ?final = Some (clear_tail c)"
      by simp
    with ct have ss: "findtext n' ''serial'' = Some s"
      by (simp add: findtext_def find_child_def n')
    have fixed: "replace_items 0 ?final ?final (children xml_doc2) = Inr (?final, [])"
      using dist sat by (rule replace_items_saturated)
    from sat [OF cm] have fne: "?final \<noteq> []" by auto
    have "update_disk by_serial get_volume_config n' =
       Inr (Element (tag n') (attrib n') (el_text n')
              (insert_items (length (children n') - 1) [] ?final) (tail n'),
            [(ci, as_disk_info b)])"
      using ss b conf sd
    proof (rule update_disk_merge)
      show "replace_items 0 (children n') (children n') (children xml_doc2) = Inr (?final, [])"
        using fixed by (simp add: n')
      show "children n' \<noteq> []" using fne by (simp add: n')
    qed
    then show ?thesis by (simp add: n' w)
  qed
qed

section \<open>Applying the patch to its own result\<close>

lemma list_all2_rangeD: "list_all2 R xs ys \<Longrightarrow> y \<in> set ys \<Longrightarrow> \<exists>x \<in> set xs. R x y"
  by (induction rule: list_all2_induct) auto

lemma update_at_idem:
  assumes upd: "update_at ss f e = Inr e'"
    and tagp: "\<And>n n'. f n = Inr n' \<Longrightarrow> tag n' = tag n"
    and idem: "\<And>n n'. f n = Inr n' \<Longrightarrow> f n' = Inr n'"
    and last: "ss = [] \<or> (\<exists>t. last ss = Child t)"
  shows "update_at ss f e' = Inr e'"
proof (rule update_at_fixed)
  fix n' assume n': "n' \<in> set (findall ss e')"
  have "list_all2 (\<lambda>n n'. f n = Inr n') (findall ss e) (findall ss e')"
    using upd tagp last by (rule update_at_findall)
  from list_all2_rangeD [OF this n'] obtain n where "f n = Inr n'" by blast
  then show "f n' = Inr n'" by (rule idem)
qed

lemma update_at_fixedD:
  assumes fixed: "update_at ss f e = Inr e"
    and tagp: "\<And>n n'. f n = Inr n' \<Longrightarrow> tag n' = tag n"
    and last: "ss = [] \<or> (\<exists>t. last ss = Child t)"
    and n: "n \<in> set (findall ss e)"
  shows "f n = Inr n"
proof -
  have "list_all2 (\<lambda>n n'. f n = Inr n') (findall ss e) (findall ss e)"
    using fixed tagp last by (rule update_at_findall)
  with n show ?thesis by (simp add: list_all2_same)
qed

lemma update_at_fixed_other:
  assumes fixed: "update_at (d # s # ss) f e = Inr e"
    and upd: "update_at (d # s' # ss') h e = Inr e'"
    and tagf: "\<And>n n'. f n = Inr n' \<Longrightarrow> tag n' = tag n"
    and tagh: "\<And>n n'. h n = Inr n' \<Longrightarrow> tag n' = tag n"
    and diff: "step_tag s \<noteq> step_tag s'"
    and last: "\<exists>t. last (d # s # ss) = Child t"
  shows "update_at (d # s # ss) f e' = Inr e'"
proof (rule update_at_fixed)
  fix n assume "n \<in> set (findall (d # s # ss) e')"
  moreover have "findall (d # s # ss) e' = findall (d # s # ss) e"
    using upd tagh diff by (rule findall_update_other)
  ultimately have n: "n \<in> set (findall (d # s # ss) e)" by simp
  from last have "d # s # ss = [] \<or> (\<exists>t. last (d # s # ss) = Child t)" by simp
  with fixed tagf show "f n = Inr n" using n by (rule update_at_fixedD)
qed

text \<open>
  The graphics patch is idempotent. The whole patch is idempotent for a volume
  configuration callback whose disk elements have children with pairwise distinct tags:
  applied to its own result, with the same migration data and the same callback, it
  succeeds and gives the same tree.
\<close>

lemma get_updated_guest_xml_idempotent_distinct:
  assumes frag: "\<And>ci di xml_doc2. get_volume_config ci di = Inr xml_doc2 \<Longrightarrow>
      distinct (map tag (children xml_doc2))"
  shows "(get_updated_guest_xml xml_doc migrate_data get_volume_config = Inr (patched, calls) \<longrightarrow>
            without_log (get_updated_guest_xml patched migrate_data get_volume_config) = Inr patched) \<and>
         (update_graphics_xml xml_doc migrate_data = Inr with_graphics \<longrightarrow>
            update_graphics_xml with_graphics migrate_data = Inr with_graphics)"
proof (intro conjI impI)
  let ?gp = "[Child ''devices'', Child ''graphics'']"
  let ?sp = "[Child ''devices'', ChildWhere ''serial'' ''type'' ''tcp'', Child ''source'']"
  let ?cp = "[Child ''devices'', ChildWhere ''console'' ''type'' ''tcp'', Child ''source'']"
  let ?dp = "[Child ''devices'', Child ''disk'']"
  let ?g = "update_graphics_dev (graphics_listen_addrs migrate_data)"
  let ?s = "update_serial_source (serial_listen_addr migrate_data)"
  let ?u = "update_disk (bdm_info_by_serial (bdms migrate_data)) get_volume_config"
  let ?v = "\<lambda>n. without_log (?u n)"
  have tagg: "\<And>n n'. ?g n = Inr n' \<Longrightarrow> tag n' = tag n" by (rule update_graphics_dev_tag)
  have idemg: "\<And>n n'. ?g n = Inr n' \<Longrightarrow> ?g n' = Inr n'" by (rule update_graphics_dev_idem)
  have tags: "\<And>n n'. ?s n = Inr n' \<Longrightarrow> tag n' = tag n" by (rule update_serial_source_tag)
  have idems: "\<And>n n'. ?s n = Inr n' \<Longrightarrow> ?s n' = Inr n'" by (rule update_serial_source_idem)
  have tagv: "\<And>n n'. ?v n = Inr n' \<Longrightarrow> tag n' = tag n"
    by (auto simp: without_log_Inr dest: update_disk_tag)
  have idemv: "?v n' = Inr n'" if "?v n = Inr n'" for n n'
  proof -
    from that obtain w where "?u n = Inr (n', w)" by (auto simp: without_log_Inr)
    with frag have "?u n' = Inr (n', w)" by (rule update_disk_idem)
    then show ?thesis by simp
  qed
  {
    assume "update_graphics_xml xml_doc migrate_data = Inr with_graphics"
    then have "update_at ?gp ?g xml_doc = Inr with_graphics"
      by (simp add: update_graphics_xml_def)
    then have "update_at ?gp ?g with_graphics = Inr with_graphics"
      using tagg idemg by (rule update_at_idem) auto
    then show "update_graphics_xml with_graphics migrate_data = Inr with_graphics"
      by (simp add: update_graphics_xml_def)
  }
  assume full: "get_updated_guest_xml xml_doc migrate_data get_volume_config = Inr (patched, calls)"
  then obtain d1 d2 where g1: "update_graphics_xml xml_doc migrate_data = Inr d1"
    and s12: "update_serial_xml d1 migrate_data = Inr d2"
    and v2: "update_volume_xml d2 migrate_data get_volume_config = Inr (patched, calls)"
    by (auto simp: get_updated_guest_xml_def and_then_def split: sum.splits)
  from s12 obtain d1a where s1: "update_at ?sp ?s d1 = Inr d1a"
    and s2: "update_at ?cp ?s d1a = Inr d2"
    by (auto simp: update_serial_xml_def and_then_def Let_def split: sum.splits)
  from g1 have G0: "update_at ?gp ?g xml_doc = Inr d1" by (simp add: update_graphics_xml_def)
  from v2 have "update_at_log ?dp ?u d2 = Inr (patched, calls)"
    by (simp add: update_volume_xml_def)
  then have V0: "update_at ?dp ?v d2 = Inr patched" by (rule update_at_log_Inr)
  \<comment> \<open>after the graphics patch\<close>
  have G1: "update_at ?gp ?g d1 = Inr d1"
    using G0 tagg idemg by (rule update_at_idem) auto
  \<comment> \<open>after the patch of the serials\<close>
  have G1a: "update_at ?gp ?g d1a = Inr d1a"
    using G1 s1 tagg tags by (rule update_at_fixed_other) auto
  have S1a: "update_at ?sp ?s d1a = Inr d1a"
    using s1 tags idems by (rule update_at_idem) auto
  \<comment> \<open>after the patch of the consoles\<close>
  have G2: "update_at ?gp ?g d2 = Inr d2"
    using G1a s2 tagg tags by (rule update_at_fixed_other) auto
  have S2: "update_at ?sp ?s d2 = Inr d2"
    using S1a s2 tags tags by (rule update_at_fixed_other) auto
  have C2: "update_at ?cp ?s d2 = Inr d2"
    using s2 tags idems by (rule update_at_idem) auto
  \<comment> \<open>after the volume patch\<close>
  have G3: "update_at ?gp ?g patched = Inr patched"
    using G2 V0 tagg tagv by (rule update_at_fixed_other) auto
  have S3: "update_at ?sp ?s patched = Inr patched"
    using S2 V0 tags tagv by (rule update_at_fixed_other) auto
  have C3: "update_at ?cp ?s patched = Inr patched"
    using C2 V0 tags tagv by (rule update_at_fixed_other) auto
  have V3: "update_at ?dp ?v patched = Inr patched"
    using V0 tagv idemv by (rule update_at_idem) auto
  from update_at_log_exists [OF V3] obtain w where
    "update_at_log ?dp ?u patched = Inr (patched, w)" ..
  with G3 S3 C3
  show "without_log (get_updated_guest_xml patched migrate_data get_volume_config) = Inr patched"
    by (simp add: get_updated_guest_xml_def update_graphics_xml_def update_serial_xml_def
        update_volume_xml_def and_then_def)
qed

lemma example_xml_doc_domain:
  "example_xml_doc = example_domain ''10.0.0.1'' (children example_disk)"
  by (simp add: example_xml_doc_def example_domain_def example_disk_def)

lemmas patch_simps =
  get_updated_guest_xml_def update_graphics_xml_def update_serial_xml_def update_volume_xml_def
  update_graphics_dev_def update_serial_source_def update_disk_def
  graphics_listen_addrs_def serial_listen_addr_def bdm_info_by_serial_def
  and_then_def getitem_def get_def set_attr_def find_child_def findtext_def
  clear_tail_def insert_at_def remove_at_def
  update_at.simps update_at_log.simps
  example_domain_def example_migrate_data_def

lemma get_updated_guest_xml_idempotent_example:
  "distinct (map tag (children example_disk_conf)) \<and>
   get_updated_guest_xml (example_domain ''10.0.0.1'' (children example_disk)) example_migrate_data
       (\<lambda>ci di. Inr example_disk_conf) =
     Inr (example_domain ''10.0.0.2''
            (children example_disk_conf @
             [Element ''address'' [(''type'', ''pci''), (''slot'', ''0x04'')] None [] None]),
          [([(''driver_volume_type'', ''iscsi'')],
            [(''dev'', ''vdb''), (''bus'', ''virtio''), (''type'', ''disk'')])]) \<and>
   without_log (get_updated_guest_xml
       (example_domain ''10.0.0.2''
          (children example_disk_conf @
           [Element ''address'' [(''type'', ''pci''), (''slot'', ''0x04'')] None [] None]))
       example_migrate_data (\<lambda>ci di. Inr example_disk_conf)) =
     Inr (example_domain ''10.0.0.2''
            (children example_disk_conf @
             [Element ''address'' [(''type'', ''pci''), (''slot'', ''0x04'')] None [] None]))"
proof -
  have d: "distinct (map tag (children example_disk_conf))"
    by (simp add: example_disk_conf_def)
  have frag: "\<And>ci di xml_doc2. (\<lambda>ci di. Inr example_disk_conf) ci di = Inr xml_doc2 \<Longrightarrow>
      distinct (map tag (children xml_doc2))"
    using d by auto
  have first: "get_updated_guest_xml (example_domain ''10.0.0.1'' (children example_disk)) example_migrate_data
       (\<lambda>ci di. Inr example_disk_conf) =
     Inr (example_domain ''10.0.0.2''
            (children example_disk_conf @
             [Element ''address'' [(''type'', ''pci''), (''slot'', ''0x04'')] None [] None]),
          [([(''driver_volume_type'', ''iscsi'')],
            [(''dev'', ''vdb''), (''bus'', ''virtio''), (''type'', ''disk'')])])"
    by (simp add: patch_simps example_disk_def example_disk_conf_def)
  from get_updated_guest_xml_idempotent_distinct [where get_volume_config = "\<lambda>ci di. Inr example_disk_conf", OF frag] first d
  show ?thesis by blast
qed

text \<open>
  C6. The patch applied to its own result, with the same migration data and the same
  callback, should give the same tree. The code does not do so when the destination's
  disk element has two children of one tag that the source disk lacks, here two
  \<^verbatim>\<open>iotune\<close> children: the first patch succeeds and inserts both, and the second patch
  raises \<^verbatim>\<open>ValueError\<close>. The inner loop runs once for every match and removes
  \<^verbatim>\<open>item_src\<close> each time; at the second match \<^verbatim>\<open>item_src\<close> is no longer a child of
  the disk.
\<close>

theorem get_updated_guest_xml_second_pass_raises:
  "get_updated_guest_xml (example_domain ''10.0.0.1'' (children example_disk)) example_migrate_data
       (\<lambda>ci di. Inr example_disk_conf_repeated) =
     Inr (example_domain ''10.0.0.2''
            [Element ''driver'' [(''name'', ''qemu''), (''type'', ''raw''), (''cache'', ''none'')] None [] None,
             Element ''source'' [(''dev'', ''/dev/lun-Z'')] None [] None,
             Element ''target'' [(''bus'', ''virtio''), (''dev'', ''vdb'')] None [] None,
             Element ''serial'' [] (Some ''58a84f6d'') [] None,
             Element ''iotune'' [(''id'', ''2'')] None [] None,
             Element ''iotune'' [(''id'', ''1'')] None [] None,
             Element ''address'' [(''type'', ''pci''), (''slot'', ''0x04'')] None [] None],
          [([(''driver_volume_type'', ''iscsi'')],
            [(''dev'', ''vdb''), (''bus'', ''virtio''), (''type'', ''disk'')])]) \<and>
   get_updated_guest_xml
       (example_domain ''10.0.0.2''
            [Element ''driver'' [(''name'', ''qemu''), (''type'', ''raw''), (''cache'', ''none'')] None [] None,
             Element ''source'' [(''dev'', ''/dev/lun-Z'')] None [] None,
             Element ''target'' [(''bus'', ''virtio''), (''dev'', ''vdb'')] None [] None,
             Element ''serial'' [] (Some ''58a84f6d'') [] None,
             Element ''iotune'' [(''id'', ''2'')] None [] None,
             Element ''iotune'' [(''id'', ''1'')] None [] None,
             Element ''address'' [(''type'', ''pci''), (''slot'', ''0x04'')] None [] None])
       example_migrate_data (\<lambda>ci di. Inr example_disk_conf_repeated) =
     Inl ValueError"
  by (simp add: patch_simps example_disk_def example_disk_conf_repeated_def)

end
